theory Spec2Isabelle
  imports Complex_Main "HOL-Library.Sublist" "HOL-Library.Word"
begin

section \<open>Python strings\<close>

text \<open>
  A Python \<open>str\<close> is a sequence of Unicode code points. The scripts match Japanese
  labels and use the Unicode-aware \<open>\s\<close>, \<open>str.strip\<close> and \<open>str.splitlines\<close>, so a
  character is modelled as its code point (a \<open>nat\<close>) and a string as a list of them.
  \<open>u\<close> turns an ASCII literal into such a string.
\<close>

type_synonym pychar = nat
type_synonym pystr = "pychar list"

definition u :: "string \<Rightarrow> pystr" where
  "u s = map of_char s"

abbreviation TAB :: pychar where "TAB \<equiv> 9"
abbreviation LF :: pychar where "LF \<equiv> 10"
abbreviation CR :: pychar where "CR \<equiv> 13"
abbreviation SPACE :: pychar where "SPACE \<equiv> 32"
abbreviation SLASH :: pychar where "SLASH \<equiv> 47"
abbreviation BACKSLASH :: pychar where "BACKSLASH \<equiv> 92"
abbreviation BACKTICK :: pychar where "BACKTICK \<equiv> 96"
abbreviation TILDE :: pychar where "TILDE \<equiv> 126"

text \<open>\<open>s.startswith(p)\<close> is \<^const>\<open>prefix\<close> \<open>p s\<close>, \<open>s.endswith(p)\<close> is \<^const>\<open>suffix\<close> \<open>p s\<close>,
  and \<open>p in s\<close> on strings is \<^const>\<open>sublist\<close> \<open>p s\<close>.\<close>

text \<open>\<open>s.replace(old, new)\<close>: the non-overlapping occurrences of \<open>old\<close>, leftmost first.
  For an empty \<open>old\<close> Python puts \<open>new\<close> before every character and at the end.\<close>

function py_replace :: "pystr \<Rightarrow> pystr \<Rightarrow> pystr \<Rightarrow> pystr" where
  "py_replace old new [] = (if old = [] then new else [])"
| "py_replace old new (c # cs) =
     (if old = [] then new @ c # py_replace old new cs
      else if prefix old (c # cs) then new @ py_replace old new (drop (length old) (c # cs))
      else c # py_replace old new cs)"
  by pat_completeness auto
termination
proof (relation "measure (\<lambda>(old, new, s). length s)")
  fix old new :: pystr and c cs
  assume "old \<noteq> []"
  then have "0 < length old" by simp
  then show "((old, new, drop (length old) (c # cs)), (old, new, c # cs))
    \<in> measure (\<lambda>(old, new, s). length s)"
    by simp
qed simp_all

text \<open>\<open>s.split(sep)\<close> for a separator of one character.\<close>

fun split_on :: "pychar \<Rightarrow> pystr \<Rightarrow> pystr list" where
  "split_on sep [] = [[]]"
| "split_on sep (c # cs) =
     (if c = sep then [] # split_on sep cs
      else (case split_on sep cs of
              [] \<Rightarrow> [[c]]
            | w # ws \<Rightarrow> (c # w) # ws))"

text \<open>\<open>sep.join(parts)\<close>\<close>

fun py_join :: "pystr \<Rightarrow> pystr list \<Rightarrow> pystr" where
  "py_join sep [] = []"
| "py_join sep [x] = x"
| "py_join sep (x # y # ys) = x @ sep @ py_join sep (y # ys)"

text \<open>\<open>str.isspace\<close> of one character, which is also what \<open>\s\<close> matches in a \<open>str\<close>
  pattern and what \<open>str.strip()\<close> removes: U+0009..U+000D, U+001C..U+0020, U+0085,
  U+00A0, U+1680, U+2000..U+200A, U+2028, U+2029, U+202F, U+205F, U+3000.\<close>

definition py_isspace :: "pychar \<Rightarrow> bool" where
  "py_isspace c =
     ((9 \<le> c \<and> c \<le> 13) \<or> (28 \<le> c \<and> c \<le> 32) \<or> c = 133 \<or> c = 160 \<or> c = 5760
      \<or> (8192 \<le> c \<and> c \<le> 8202) \<or> c = 8232 \<or> c = 8233 \<or> c = 8239 \<or> c = 8287
      \<or> c = 12288)"

definition py_lstrip :: "pystr \<Rightarrow> pystr" where
  "py_lstrip s = dropWhile py_isspace s"

definition py_rstrip :: "pystr \<Rightarrow> pystr" where
  "py_rstrip s = rev (dropWhile py_isspace (rev s))"

definition py_strip :: "pystr \<Rightarrow> pystr" where
  "py_strip s = py_rstrip (py_lstrip s)"

section \<open>validate-approval.py: the estimate hash\<close>

datatype py_error =
    ValueError pystr
  | UnicodeEncodeError

type_synonym byte = "8 word"

text \<open>\<open>str.encode("utf-8")\<close>: one to four bytes per code point; a surrogate
  (U+D800..U+DFFF) cannot be encoded and raises.\<close>

definition utf8_char :: "pychar \<Rightarrow> py_error + byte list" where
  "utf8_char c =
     (if c < 0x80 then Inr [of_nat c]
      else if c < 0x800 then Inr [of_nat (0xC0 + c div 64), of_nat (0x80 + c mod 64)]
      else if 0xD800 \<le> c \<and> c \<le> 0xDFFF then Inl UnicodeEncodeError
      else if c < 0x10000 then
        Inr [of_nat (0xE0 + c div 4096), of_nat (0x80 + c div 64 mod 64), of_nat (0x80 + c mod 64)]
      else if c < 0x110000 then
        Inr [of_nat (0xF0 + c div 262144), of_nat (0x80 + c div 4096 mod 64),
             of_nat (0x80 + c div 64 mod 64), of_nat (0x80 + c mod 64)]
      else Inl UnicodeEncodeError)"

fun utf8_encode :: "pystr \<Rightarrow> py_error + byte list" where
  "utf8_encode [] = Inr []"
| "utf8_encode (c # cs) =
     (case utf8_char c of
        Inl e \<Rightarrow> Inl e
      | Inr bs \<Rightarrow> (case utf8_encode cs of Inl e \<Rightarrow> Inl e | Inr rest \<Rightarrow> Inr (bs @ rest)))"

definition normalize_text_for_hash :: "pystr \<Rightarrow> py_error + byte list" where
  "normalize_text_for_hash text0 =
     (let text1 = py_replace [CR] [LF] (py_replace [CR, LF] [LF] text0);
          text2 = (if \<not> suffix [LF] text1 then text1 @ [LF] else text1)
      in utf8_encode text2)"

text \<open>\<open>sha256_prefixed\<close>: \<open>hashlib\<close> is the standard library's; the digest function
  (bytes to its 64 hexadecimal digits) is a parameter.\<close>

definition sha256_prefixed :: "(byte list \<Rightarrow> pystr) \<Rightarrow> byte list \<Rightarrow> pystr" where
  "sha256_prefixed hexdigest data = u ''sha256:'' @ hexdigest data"

text \<open>The hash the approval gate computes from the estimate text (\<open>main\<close>,
  \<open>computed_hash\<close>); an encoding error propagates.\<close>

definition computed_hash :: "(byte list \<Rightarrow> pystr) \<Rightarrow> pystr \<Rightarrow> py_error + pystr" where
  "computed_hash hexdigest estimate_text =
     (case normalize_text_for_hash estimate_text of
        Inl e \<Rightarrow> Inl e
      | Inr data \<Rightarrow> Inr (sha256_prefixed hexdigest data))"

text \<open>
  Two texts that differ only in their line endings: read left to right, an ordinary
  character stands against the same character, and a line ending (CR LF, a lone CR,
  or LF) against a line ending of any of the three kinds. A CR counts as a lone CR
  only when no LF follows it.
\<close>

definition line_endings :: "pystr set" where
  "line_endings = {[CR, LF], [CR], [LF]}"

definition lone_ok :: "pystr \<Rightarrow> pystr \<Rightarrow> bool" where
  "lone_ok e rest = (if e = [CR] then \<not> prefix [LF] rest else True)"

inductive same_but_eol :: "pystr \<Rightarrow> pystr \<Rightarrow> bool" where
  Nil_eol: "same_but_eol [] []"
| Char_eol: "c \<noteq> CR \<Longrightarrow> c \<noteq> LF \<Longrightarrow> same_but_eol s t \<Longrightarrow> same_but_eol (c # s) (c # t)"
| Eol_eol: "e1 \<in> line_endings \<Longrightarrow> e2 \<in> line_endings \<Longrightarrow> lone_ok e1 s \<Longrightarrow> lone_ok e2 t
     \<Longrightarrow> same_but_eol s t \<Longrightarrow> same_but_eol (e1 @ s) (e2 @ t)"

text \<open>A text has a final newline when it ends with CR or LF.\<close>

definition has_final_newline :: "pystr \<Rightarrow> bool" where
  "has_final_newline s = (s \<noteq> [] \<and> (last s = CR \<or> last s = LF))"

text \<open>The texts differ only in line-ending convention and in whether a final newline
  is there: they are the same up to line endings, or become so once a line ending is
  put at the end of the one that has none.\<close>

definition differ_only_in_eol :: "pystr \<Rightarrow> pystr \<Rightarrow> bool" where
  "differ_only_in_eol s t =
     (same_but_eol s t
      \<or> (\<not> has_final_newline s \<and> (\<exists>e \<in> line_endings. same_but_eol (s @ e) t))
      \<or> (\<not> has_final_newline t \<and> (\<exists>e \<in> line_endings. same_but_eol s (t @ e))))"

text \<open>The text after the two replacements, and the text that is encoded.\<close>

definition canon :: "pystr \<Rightarrow> pystr" where
  "canon s = py_replace [CR] [LF] (py_replace [CR, LF] [LF] s)"

definition hash_text :: "pystr \<Rightarrow> pystr" where
  "hash_text s = (if \<not> suffix [LF] (canon s) then canon s @ [LF] else canon s)"

text \<open>Two estimate texts used as a concrete instance: CR LF without a final newline,
  and LF with one.\<close>

definition estimate_crlf :: pystr where
  "estimate_crlf = u ''a'' @ [CR, LF] @ u ''b''"

definition estimate_lf :: pystr where
  "estimate_lf = u ''a'' @ [LF] @ u ''b'' @ [LF]"

section \<open>validate-review-json.py\<close>

text \<open>What \<open>json.load\<close> returns: \<open>None\<close>, a \<open>bool\<close>, an \<open>int\<close>, a \<open>float\<close> (its exact value,
  or \<open>None\<close> for NaN and the infinities, which \<open>json\<close> reads too), a \<open>str\<close>, a \<open>list\<close> or a
  \<open>dict\<close> (an association list; a lookup takes the first entry of a key).\<close>

datatype json =
    JNull
  | JBool bool
  | JInt int
  | JFloat "rat option"
  | JStr pystr
  | JArr "json list"
  | JObj "(pystr \<times> json) list"

type_synonym pydict = "(pystr \<times> json) list"

text \<open>\<open>d.get(k)\<close>: \<open>None\<close> for a missing key.\<close>

definition dict_get :: "pydict \<Rightarrow> pystr \<Rightarrow> json" where
  "dict_get d k = (case map_of d k of None \<Rightarrow> JNull | Some v \<Rightarrow> v)"

definition dict_keys :: "pydict \<Rightarrow> pystr set" where
  "dict_keys d = set (map fst d)"

text \<open>\<open>isinstance(x, str)\<close>, \<open>isinstance(x, list)\<close>, \<open>isinstance(x, dict)\<close>, and
  \<open>isinstance(x, int)\<close>, which holds of a \<open>bool\<close> too (\<open>True\<close> is 1, \<open>False\<close> is 0).\<close>

fun is_str :: "json \<Rightarrow> bool" where
  "is_str (JStr _) = True"
| "is_str _ = False"

fun is_dict :: "json \<Rightarrow> bool" where
  "is_dict (JObj _) = True"
| "is_dict _ = False"

fun int_value :: "json \<Rightarrow> int option" where
  "int_value (JInt n) = Some n"
| "int_value (JBool b) = Some (if b then 1 else 0)"
| "int_value _ = None"

text \<open>\<open>x != 3\<close>: an \<open>int\<close>, \<open>bool\<close> or \<open>float\<close> is compared by value.\<close>

fun equals_3 :: "json \<Rightarrow> bool" where
  "equals_3 (JInt n) = (n = 3)"
| "equals_3 (JFloat r) = (r = Some 3)"
| "equals_3 _ = False"

text \<open>\<open>x in S\<close> for a set \<open>S\<close> of strings hashes \<open>x\<close>: a list or dict raises \<open>TypeError\<close>.\<close>

fun hashable :: "json \<Rightarrow> bool" where
  "hashable (JArr _) = False"
| "hashable (JObj _) = False"
| "hashable _ = True"

definition STATUS_ALLOWED :: "pystr set" where
  "STATUS_ALLOWED = {u ''Approved'', u ''Approved with nits'', u ''Blocked'', u ''Question''}"

definition PRIORITY_ALLOWED :: "pystr set" where
  "PRIORITY_ALLOWED = {u ''P0'', u ''P1'', u ''P2'', u ''P3''}"

definition is_repo_relative_path :: "pystr \<Rightarrow> bool" where
  "is_repo_relative_path path =
     (if path = [] then False
      else if prefix (u ''/'') path then False
      else if path \<in> {u ''.'', u ''..''} then False
      else u ''..'' \<notin> set (filter (\<lambda>p. p \<noteq> []) (split_on SLASH path)))"

text \<open>The messages of \<open>validate_review\<close>, one constructor per message, with the index
  of the finding and the keys or values the message prints:
  \<^item> \<open>MissingKeys ks\<close>: \<open>missing keys: [..]\<close> (sorted), \<open>UnexpectedKeys\<close>: \<open>unexpected keys: [..]\<close>;
  \<^item> \<open>SchemaVersion\<close>: \<open>schema_version must be 3\<close>; \<open>ScopeIdEmpty\<close>: \<open>scope_id must be a
    non-empty string\<close>; \<open>ScopeIdMismatch e g\<close>: \<open>scope_id mismatch: expected e, got g\<close>;
  \<^item> \<open>StatusNotAllowed\<close>: \<open>status must be one of [..]\<close>; \<open>FindingsNotArray\<close>: \<open>findings must
    be an array\<close>; \<open>QuestionsNotStrings\<close>: \<open>questions must be an array of strings\<close>;
    \<open>ExplanationEmpty\<close>: \<open>overall_explanation must be a non-empty string\<close>;
  \<^item> \<open>FindingNotObject i\<close> .. \<open>EndBeforeStart i\<close>: the messages about \<open>findings[i]\<close>, in the
    order of the source;
  \<^item> \<open>ApprovedFindings\<close>: \<open>Approved must have findings=[]\<close>; \<open>ApprovedQuestions\<close>: \<open>Approved
    must have questions=[]\<close>; \<open>NitsBlocking\<close>: \<open>Approved with nits must not include P0/P1
    findings\<close>; \<open>NitsQuestions\<close>: \<open>Approved with nits must have questions=[]\<close>;
    \<open>BlockedNoBlocking\<close>: \<open>Blocked must include at least one P0/P1 finding\<close>;
    \<open>QuestionNoQuestion\<close>: \<open>Question must include at least one question\<close>.
\<close>

datatype review_error =
    MissingKeys "pystr list"
  | UnexpectedKeys "pystr set"
  | SchemaVersion
  | ScopeIdEmpty
  | ScopeIdMismatch pystr pystr
  | StatusNotAllowed
  | FindingsNotArray
  | QuestionsNotStrings
  | ExplanationEmpty
  | FindingNotObject nat
  | FindingMissingKey nat pystr
  | FindingUnexpectedKeys nat "pystr set"
  | TitleEmpty nat
  | TitleTooLong nat
  | BodyEmpty nat
  | PriorityNotAllowed nat
  | CodeLocationNotObject nat
  | CodeLocationMissingKeys nat "pystr list"
  | CodeLocationUnexpectedKeys nat "pystr set"
  | PathNotRepoRelative nat
  | LineRangeNotObject nat
  | LineRangeMissingKeys nat "pystr list"
  | LineRangeUnexpectedKeys nat "pystr set"
  | StartNotPositiveInt nat
  | EndNotPositiveInt nat
  | EndBeforeStart nat
  | ApprovedFindings
  | ApprovedQuestions
  | NitsBlocking
  | NitsQuestions
  | BlockedNoBlocking
  | QuestionNoQuestion

text \<open>\<open>sorted(required - set(d.keys()))\<close>, for \<open>required\<close> given in sorted order.\<close>

definition missing_of :: "pystr list \<Rightarrow> pydict \<Rightarrow> pystr list" where
  "missing_of required_sorted d = filter (\<lambda>k. k \<notin> dict_keys d) required_sorted"

definition extra_of :: "pystr list \<Rightarrow> pydict \<Rightarrow> pystr set" where
  "extra_of required d = dict_keys d - set required"

text \<open>A non-empty string: \<open>isinstance(x, str) and x\<close>.\<close>

fun nonempty_str :: "json \<Rightarrow> bool" where
  "nonempty_str (JStr s) = (s \<noteq> [])"
| "nonempty_str _ = False"

text \<open>The checks on \<open>line_range\<close>, once it is known to be a dict.\<close>

definition validate_line_range :: "nat \<Rightarrow> pydict \<Rightarrow> review_error list" where
  "validate_line_range idx line_range =
     (let missing_line_range = missing_of [u ''end'', u ''start''] line_range;
          extra_line_range = extra_of [u ''start'', u ''end''] line_range;
          start = int_value (dict_get line_range (u ''start''));
          end = int_value (dict_get line_range (u ''end''))
      in (if missing_line_range \<noteq> [] then [LineRangeMissingKeys idx missing_line_range] else [])
       @ (if extra_line_range \<noteq> {} then [LineRangeUnexpectedKeys idx extra_line_range] else [])
       @ (case start of None \<Rightarrow> [StartNotPositiveInt idx]
                      | Some s \<Rightarrow> if s < 1 then [StartNotPositiveInt idx] else [])
       @ (case end of None \<Rightarrow> [EndNotPositiveInt idx]
                    | Some e \<Rightarrow> if e < 1 then [EndNotPositiveInt idx] else [])
       @ (case (start, end) of
            (Some s, Some e) \<Rightarrow> if e < s then [EndBeforeStart idx] else []
          | _ \<Rightarrow> []))"

text \<open>The checks on \<open>code_location\<close>, once it is known to be a dict; a \<open>line_range\<close>
  that is no dict ends the finding's checks (\<open>continue\<close>).\<close>

definition validate_code_location :: "nat \<Rightarrow> pydict \<Rightarrow> review_error list" where
  "validate_code_location idx code_location =
     (let missing_code_location =
            missing_of [u ''line_range'', u ''repo_relative_path''] code_location;
          extra_code_location =
            extra_of [u ''repo_relative_path'', u ''line_range''] code_location;
          repo_relative_path = dict_get code_location (u ''repo_relative_path'');
          line_range = dict_get code_location (u ''line_range'')
      in (if missing_code_location \<noteq> [] then [CodeLocationMissingKeys idx missing_code_location]
          else [])
       @ (if extra_code_location \<noteq> {} then [CodeLocationUnexpectedKeys idx extra_code_location]
          else [])
       @ (case repo_relative_path of
            JStr p \<Rightarrow> if \<not> is_repo_relative_path p then [PathNotRepoRelative idx] else []
          | _ \<Rightarrow> [PathNotRepoRelative idx])
       @ (case line_range of
            JObj lr \<Rightarrow> validate_line_range idx lr
          | _ \<Rightarrow> [LineRangeNotObject idx]))"

text \<open>The body of the loop over \<open>enumerate(findings)\<close>.\<close>

definition validate_finding :: "nat \<Rightarrow> json \<Rightarrow> review_error list" where
  "validate_finding idx item =
     (case item of
        JObj d \<Rightarrow>
          (let required_finding_keys = [u ''body'', u ''code_location'', u ''priority'', u ''title''];
               extra_finding = extra_of required_finding_keys d;
               title = dict_get d (u ''title'');
               body = dict_get d (u ''body'');
               priority = dict_get d (u ''priority'');
               code_location = dict_get d (u ''code_location'')
           in map (FindingMissingKey idx) (missing_of required_finding_keys d)
            @ (if extra_finding \<noteq> {} then [FindingUnexpectedKeys idx extra_finding] else [])
            @ (case title of
                 JStr t \<Rightarrow> if t = [] then [TitleEmpty idx]
                           else if length t > 120 then [TitleTooLong idx] else []
               | _ \<Rightarrow> [TitleEmpty idx])
            @ (if \<not> nonempty_str body then [BodyEmpty idx] else [])
            @ (case priority of
                 JStr p \<Rightarrow> if p \<notin> PRIORITY_ALLOWED then [PriorityNotAllowed idx] else []
               | _ \<Rightarrow> [PriorityNotAllowed idx])
            @ (case code_location of
                 JObj cl \<Rightarrow> validate_code_location idx cl
               | _ \<Rightarrow> [CodeLocationNotObject idx]))
      | _ \<Rightarrow> [FindingNotObject idx])"

fun validate_findings :: "nat \<Rightarrow> json list \<Rightarrow> review_error list" where
  "validate_findings idx [] = []"
| "validate_findings idx (item # items) =
     validate_finding idx item @ validate_findings (Suc idx) items"

text \<open>\<open>[f for f in findings if isinstance(f, dict) and f.get("priority") in ("P0", "P1")]\<close>\<close>

fun is_blocking :: "json \<Rightarrow> bool" where
  "is_blocking (JObj d) =
     (dict_get d (u ''priority'') = JStr (u ''P0'') \<or> dict_get d (u ''priority'') = JStr (u ''P1''))"
| "is_blocking _ = False"

definition blocking :: "json list \<Rightarrow> json list" where
  "blocking findings = filter is_blocking findings"

text \<open>The cross-field constraints at the end of \<open>validate_review\<close>, on the status and
  on \<open>findings\<close> and \<open>questions\<close> as the checks above left them (replaced by \<open>[]\<close> when
  ill-typed).\<close>

definition cross_field :: "json \<Rightarrow> json list \<Rightarrow> json list \<Rightarrow> review_error list" where
  "cross_field status findings questions =
     (if status = JStr (u ''Approved'') then
        (if length findings \<noteq> 0 then [ApprovedFindings] else [])
        @ (if length questions \<noteq> 0 then [ApprovedQuestions] else [])
      else [])
   @ (if status = JStr (u ''Approved with nits'') then
        (if blocking findings \<noteq> [] then [NitsBlocking] else [])
        @ (if length questions \<noteq> 0 then [NitsQuestions] else [])
      else [])
   @ (if status = JStr (u ''Blocked'') then
        (if blocking findings = [] then [BlockedNoBlocking] else [])
      else [])
   @ (if status = JStr (u ''Question'') then
        (if length questions = 0 then [QuestionNoQuestion] else [])
      else [])"

definition required_keys :: "pystr list" where
  "required_keys = [u ''findings'', u ''overall_explanation'', u ''questions'',
                    u ''schema_version'', u ''scope_id'', u ''status'']"

text \<open>\<open>validate_review\<close>: the list of messages, or the \<open>TypeError\<close> that the membership
  test of an unhashable \<open>status\<close> raises.\<close>

datatype 'a raised = TypeError | Returned 'a

definition validate_review :: "pydict \<Rightarrow> pystr option \<Rightarrow> review_error list raised" where
  "validate_review obj expected_scope_id =
     (let missing = missing_of required_keys obj in
      if missing \<noteq> [] then Returned [MissingKeys missing]
      else
       let extra = extra_of required_keys obj;
           scope_id = dict_get obj (u ''scope_id'');
           status = dict_get obj (u ''status'');
           findings0 = dict_get obj (u ''findings'');
           questions0 = dict_get obj (u ''questions'');
           overall_explanation = dict_get obj (u ''overall_explanation'');
           errors1 =
             (if extra \<noteq> {} then [UnexpectedKeys extra] else [])
             @ (if \<not> equals_3 (dict_get obj (u ''schema_version'')) then [SchemaVersion] else [])
             @ (case scope_id of
                  JStr s \<Rightarrow>
                    if s = [] then [ScopeIdEmpty]
                    else (case expected_scope_id of
                            Some e \<Rightarrow> if s \<noteq> e then [ScopeIdMismatch e s] else []
                          | None \<Rightarrow> [])
                | _ \<Rightarrow> [ScopeIdEmpty])
       in if \<not> hashable status then TypeError
          else
           let errors2 =
                 (case status of
                    JStr s \<Rightarrow> if s \<notin> STATUS_ALLOWED then [StatusNotAllowed] else []
                  | _ \<Rightarrow> [StatusNotAllowed]);
               findings = (case findings0 of JArr fs \<Rightarrow> fs | _ \<Rightarrow> []);
               errors3 = (case findings0 of JArr fs \<Rightarrow> [] | _ \<Rightarrow> [FindingsNotArray]);
               questions_ok = (case questions0 of JArr qs \<Rightarrow> list_all is_str qs | _ \<Rightarrow> False);
               questions = (case questions0 of JArr qs \<Rightarrow> if questions_ok then qs else []
                            | _ \<Rightarrow> []);
               errors4 = (if \<not> questions_ok then [QuestionsNotStrings] else []);
               errors5 = (if \<not> nonempty_str overall_explanation then [ExplanationEmpty] else [])
           in Returned (errors1 @ errors2 @ errors3 @ errors4 @ errors5
                        @ validate_findings 0 findings
                        @ cross_field status findings questions))"

text \<open>A well-formed \<open>Approved\<close> review, as a concrete instance; entries put in front of
  it override its keys.\<close>

definition review_ok :: pydict where
  "review_ok = [(u ''schema_version'', JInt 3), (u ''scope_id'', JStr (u ''s'')),
     (u ''status'', JStr (u ''Approved'')), (u ''findings'', JArr []),
     (u ''questions'', JArr []), (u ''overall_explanation'', JStr (u ''fine''))]"

section \<open>sot_refs.py: resolving a reference to a repo-relative path\<close>

text \<open>The paths are POSIX paths: \<open>os.sep\<close> is \<open>/\<close> and \<open>os.path.isabs(p)\<close> is
  \<open>p.startswith("/")\<close>.\<close>

definition is_safe_repo_relative :: "pystr \<Rightarrow> bool" where
  "is_safe_repo_relative path =
     (if path = [] then False
      else if prefix (u ''/'') path then False
      else if u ''..'' \<in> set (filter (\<lambda>p. p \<noteq> []) (split_on SLASH path)) then False
      else if path \<in> {u ''.'', u ''..''} then False
      else True)"

text \<open>\<open>re.search(r"\[[^\]]*\]\(([^)]+)\)", ref)\<close>, the first Markdown link, and its group 1.
  At a \<open>[\<close>, the class \<open>[^\]]*\<close> runs to the first \<open>]\<close>, which \<open>(\<close> must follow; \<open>[^)]+\<close> runs
  to the first \<open>)\<close> and must not be empty. No shorter run can match, since the character
  after a shorter run is inside the class. The search tries every position from the left.\<close>

definition md_link_at :: "pystr \<Rightarrow> pystr option" where
  "md_link_at s =
     (case s of
        [] \<Rightarrow> None
      | c # rest \<Rightarrow>
          if c \<noteq> 91 then None
          else (case dropWhile (\<lambda>x. x \<noteq> 93) rest of
                  a # b # rest2 \<Rightarrow>
                    if a = 93 \<and> b = 40 then
                      (let target = takeWhile (\<lambda>x. x \<noteq> 41) rest2 in
                       if target \<noteq> [] \<and> dropWhile (\<lambda>x. x \<noteq> 41) rest2 \<noteq> [] then Some target
                       else None)
                    else None
                | _ \<Rightarrow> None))"

fun md_link_search :: "pystr \<Rightarrow> pystr option" where
  "md_link_search [] = None"
| "md_link_search (c # cs) =
     (case md_link_at (c # cs) of
        Some target \<Rightarrow> Some target
      | None \<Rightarrow> md_link_search cs)"

definition normalize_reference :: "pystr \<Rightarrow> pystr" where
  "normalize_reference ref0 =
     (let ref1 = py_strip ref0;
          ref2 = (case md_link_search ref1 of Some target \<Rightarrow> py_strip target | None \<Rightarrow> ref1);
          ref3 = (if prefix (u ''<'') ref2 \<and> suffix (u ''>'') ref2
                  then py_strip (butlast (tl ref2)) else ref2);
          ref4 = (if prefix [BACKTICK] ref3 \<and> suffix [BACKTICK] ref3
                  then py_strip (butlast (tl ref3)) else ref3)
      in py_strip (hd (split_on 35 ref4)))"

text \<open>\<open>os.path.normpath\<close> (\<open>posixpath\<close>): pure string algebra. The loop over the
  components keeps \<open>new_comps\<close>; \<open>initial_slashes\<close> is 0, 1 or 2.\<close>

definition normpath_step :: "nat \<Rightarrow> pystr list \<Rightarrow> pystr \<Rightarrow> pystr list" where
  "normpath_step initial_slashes new_comps component =
     (if component = [] \<or> component = u ''.'' then new_comps
      else if component \<noteq> u ''..'' \<or> (initial_slashes = 0 \<and> new_comps = [])
              \<or> (new_comps \<noteq> [] \<and> last new_comps = u ''..'')
        then new_comps @ [component]
      else if new_comps \<noteq> [] then butlast new_comps
      else new_comps)"

definition normpath :: "pystr \<Rightarrow> pystr" where
  "normpath path =
     (if path = [] then u ''.''
      else
        let initial_slashes =
              (if prefix (u ''/'') path
               then (if prefix (u ''//'') path \<and> \<not> prefix (u ''///'') path then 2 else 1)
               else 0);
            comps = foldl (normpath_step initial_slashes) [] (split_on SLASH path);
            path1 = replicate initial_slashes SLASH @ py_join (u ''/'') comps
        in if path1 = [] then u ''.'' else path1)"

text \<open>What the function takes from outside the program: \<open>urllib.parse.urlparse\<close> (which
  may raise \<open>ValueError\<close>), of whose result the code reads \<open>scheme\<close>,
  \<open>(hostname or "").lower()\<close> and \<open>path or ""\<close>; and \<open>os.path.realpath\<close> and
  \<open>os.path.relpath\<close>, which depend on the file system and the working directory.\<close>

record parsed_url =
  scheme :: pystr
  host_lower :: pystr
  url_path :: pystr

record os_env =
  urlparse :: "pystr \<Rightarrow> py_error + parsed_url"
  realpath :: "pystr \<Rightarrow> pystr"
  relpath :: "pystr \<Rightarrow> pystr \<Rightarrow> pystr"

text \<open>\<open>parts.index(x)\<close>, used where \<open>x in parts\<close>.\<close>

definition index_of :: "pystr \<Rightarrow> pystr list \<Rightarrow> nat" where
  "index_of x parts = length (takeWhile (\<lambda>p. p \<noteq> x) parts)"

definition resolve_ref_to_repo_path :: "os_env \<Rightarrow> pystr \<Rightarrow> pystr \<Rightarrow> py_error + pystr" where
  "resolve_ref_to_repo_path env repo_root ref0 =
     (let ref = normalize_reference ref0 in
      if ref = [] then Inl (ValueError (u ''empty reference''))
      else
       (case urlparse env ref of
          Inl e \<Rightarrow> Inl e
        | Inr parsed \<Rightarrow>
            if scheme parsed \<in> {u ''http'', u ''https''} then
              (let host = host_lower parsed;
                   path = url_path parsed;
                   parts = filter (\<lambda>p. p \<noteq> []) (split_on SLASH path)
               in if u ''blob'' \<in> set parts then
                    (let i = index_of (u ''blob'') parts in
                     if length parts \<le> i + 2
                     then Inl (ValueError (u ''invalid GitHub blob URL: '' @ ref))
                     else
                       let rel = py_join (u ''/'') (drop (i + 2) parts) in
                       if \<not> is_safe_repo_relative rel
                       then Inl (ValueError (u ''unsafe repo-relative path from URL: '' @ ref))
                       else Inr rel)
                  else if u ''tree'' \<in> set parts then
                    (let i = index_of (u ''tree'') parts in
                     if length parts \<le> i + 2
                     then Inl (ValueError (u ''invalid GitHub tree URL: '' @ ref))
                     else
                       let rel = py_join (u ''/'') (drop (i + 2) parts) in
                       if \<not> is_safe_repo_relative rel
                       then Inl (ValueError (u ''unsafe repo-relative path from URL: '' @ ref))
                       else Inr rel)
                  else if host = u ''raw.githubusercontent.com'' then
                    (if length parts < 5
                     then Inl (ValueError (u ''invalid raw GitHub URL: '' @ ref))
                     else
                       let rel = py_join (u ''/'') (drop 4 parts) in
                       if \<not> is_safe_repo_relative rel
                       then Inl (ValueError (u ''unsafe repo-relative path from URL: '' @ ref))
                       else Inr rel)
                  else Inl (ValueError (u ''unsupported URL reference: '' @ ref)))
            else if prefix (u ''/'') ref then
              (let abs_path = realpath env ref;
                   repo_abs = realpath env repo_root
               in if \<not> prefix (repo_abs @ u ''/'') abs_path
                  then Inl (ValueError (u ''absolute path outside repo: '' @ ref))
                  else
                    let rel = py_replace (u ''/'') (u ''/'') (relpath env abs_path repo_abs) in
                    if \<not> is_safe_repo_relative rel
                    then Inl (ValueError (u ''unsafe repo-relative path: '' @ rel))
                    else Inr rel)
            else
              (let rel1 = (if prefix (u ''./'') ref then drop 2 ref else ref);
                   rel2 = py_strip rel1;
                   rel3 = py_replace [BACKSLASH] (u ''/'') rel2;
                   rel = py_replace (u ''/'') (u ''/'') (normpath rel3)
               in if \<not> is_safe_repo_relative rel
                  then Inl (ValueError (u ''unsafe repo-relative path: '' @ rel))
                  else Inr rel)))"

text \<open>A path has a \<open>..\<close> segment when \<open>..\<close> stands in it between slashes or the ends of
  the path.\<close>

definition dotdot_segment :: "pystr \<Rightarrow> bool" where
  "dotdot_segment p =
     (\<exists>a b. p = a @ u ''..'' @ b \<and> (a = [] \<or> last a = SLASH) \<and> (b = [] \<or> hd b = SLASH))"

text \<open>The candidate of the last branch (a reference that is neither a URL nor an
  absolute path): the normalised reference without a leading \<open>./\<close>, stripped, with
  backslashes turned into slashes, and path-normalised.\<close>

definition relative_candidate :: "pystr \<Rightarrow> pystr" where
  "relative_candidate ref0 =
     (let ref = normalize_reference ref0;
          rel1 = (if prefix (u ''./'') ref then drop 2 ref else ref)
      in py_replace (u ''/'') (u ''/'') (normpath (py_replace [BACKSLASH] (u ''/'') (py_strip rel1))))"

text \<open>The reference is handled by the last branch: it is not empty after
  \<open>normalize_reference\<close>, \<open>urlparse\<close> returns a scheme other than \<open>http\<close> and \<open>https\<close>, and
  it is not absolute.\<close>

definition plain_relative :: "os_env \<Rightarrow> pystr \<Rightarrow> bool" where
  "plain_relative env ref0 =
     (let ref = normalize_reference ref0 in
      ref \<noteq> [] \<and> \<not> prefix (u ''/'') ref
      \<and> (case urlparse env ref of
            Inl e \<Rightarrow> False
          | Inr parsed \<Rightarrow> scheme parsed \<noteq> u ''http'' \<and> scheme parsed \<noteq> u ''https''))"

text \<open>An environment for a concrete instance: no reference is a URL, paths are already
  real.\<close>

definition plain_env :: os_env where
  "plain_env = \<lparr> urlparse = (\<lambda>r. Inr \<lparr> scheme = [], host_lower = [], url_path = r \<rparr>),
                 realpath = (\<lambda>p. p),
                 relpath = (\<lambda>p start. drop (length start + 1) p) \<rparr>"

section \<open>md_sanitize.py\<close>

text \<open>\<open>text.splitlines(keepends=True)\<close>. A line ends at LF, CR, CR LF, VT, FF, FS, GS, RS,
  NEL (U+0085), LS (U+2028) or PS (U+2029) and keeps its terminator; a last line without
  terminator is a line too. An ordinary character joins the first line of what follows.\<close>

definition is_linebreak :: "pychar \<Rightarrow> bool" where
  "is_linebreak c =
     (c = LF \<or> c = 11 \<or> c = 12 \<or> c = CR \<or> c = 28 \<or> c = 29 \<or> c = 30 \<or> c = 133
      \<or> c = 8232 \<or> c = 8233)"

fun splitlines_keepends :: "pystr \<Rightarrow> pystr list" where
  "splitlines_keepends [] = []"
| "splitlines_keepends (c # cs) =
     (if is_linebreak c then
        (case cs of
           [] \<Rightarrow> [[c]]
         | d # ds \<Rightarrow>
             if c = CR \<and> d = LF then [CR, LF] # splitlines_keepends ds
             else [c] # splitlines_keepends cs)
      else
        (case splitlines_keepends cs of
           [] \<Rightarrow> [[c]]
         | l # ls \<Rightarrow> (c # l) # ls))"

text \<open>\<open>text.splitlines()\<close>: the same lines without their terminators.\<close>

definition splitlines :: "pystr \<Rightarrow> pystr list" where
  "splitlines s = map (takeWhile (\<lambda>c. \<not> is_linebreak c)) (splitlines_keepends s)"

text \<open>
  The fence at the start of a line, \<open>^[ \t]{0,3}((?:`{3,})|(?:~{3,}))\<close>: at most three
  blanks, all the blanks there are (a blank cannot start the group), then the longest run
  of backticks or of tildes, at least three. The result is the character of group 1, its
  length, and what follows the run. \<open>_FENCE_OPEN_RE.match\<close> asks no more;
  \<open>_FENCE_CLOSE_RE.match\<close> has \<open>[ \t]*$\<close> after the group, so only blanks may follow the whole
  run, up to the end of the line or to a final LF (\<open>$\<close> without \<open>MULTILINE\<close>).
\<close>

definition is_blank :: "pychar \<Rightarrow> bool" where
  "is_blank c = (c = SPACE \<or> c = TAB)"

definition fence_run :: "pystr \<Rightarrow> (pychar \<times> nat \<times> pystr) option" where
  "fence_run line =
     (let rest = dropWhile is_blank line in
      if length (takeWhile is_blank line) > 3 then None
      else (case rest of
              [] \<Rightarrow> None
            | c # _ \<Rightarrow>
                if (c = BACKTICK \<or> c = TILDE) \<and> length (takeWhile (\<lambda>x. x = c) rest) \<ge> 3
                then Some (c, length (takeWhile (\<lambda>x. x = c) rest), dropWhile (\<lambda>x. x = c) rest)
                else None))"

definition fence_open :: "pystr \<Rightarrow> (pychar \<times> nat) option" where
  "fence_open line = (case fence_run line of None \<Rightarrow> None | Some (c, n, after) \<Rightarrow> Some (c, n))"

definition fence_close :: "pystr \<Rightarrow> (pychar \<times> nat) option" where
  "fence_close line =
     (case fence_run line of
        None \<Rightarrow> None
      | Some (c, n, after) \<Rightarrow>
          if dropWhile is_blank after = [] \<or> dropWhile is_blank after = [LF] then Some (c, n)
          else None)"

text \<open>The state of the loop of \<open>strip_fenced_code_blocks\<close>: \<open>in_fence\<close> with \<open>fence_char\<close>
  and \<open>fence_len\<close> (which are \<open>""\<close> and 0 exactly when \<open>in_fence\<close> is false).\<close>

datatype fence_state = Outside | Inside pychar nat

fun fence_loop :: "fence_state \<Rightarrow> pystr list \<Rightarrow> pystr list" where
  "fence_loop st [] = []"
| "fence_loop Outside (line # rest) =
     (case fence_open line of
        Some (c, n) \<Rightarrow> fence_loop (Inside c n) rest
      | None \<Rightarrow> line # fence_loop Outside rest)"
| "fence_loop (Inside fence_char fence_len) (line # rest) =
     (case fence_close line of
        Some (c, n) \<Rightarrow>
          if c = fence_char \<and> n \<ge> fence_len then fence_loop Outside rest
          else fence_loop (Inside fence_char fence_len) rest
      | None \<Rightarrow> fence_loop (Inside fence_char fence_len) rest)"

definition strip_fenced_code_blocks :: "pystr \<Rightarrow> pystr" where
  "strip_fenced_code_blocks text = concat (fence_loop Outside (splitlines_keepends text))"

text \<open>\<open>_INDENTED_CODE_RE.match(line)\<close>, \<open>^(?:\t| {4,})\<close>: a tab or four spaces first.\<close>

definition indented_code :: "pystr \<Rightarrow> bool" where
  "indented_code line = (prefix [TAB] line \<or> prefix [SPACE, SPACE, SPACE, SPACE] line)"

definition strip_indented_code_blocks :: "pystr \<Rightarrow> pystr" where
  "strip_indented_code_blocks text =
     concat (filter (\<lambda>line. \<not> indented_code line) (splitlines_keepends text))"

text \<open>
  \<open>_mask_inline_code_spans\<close>. The source walks an index \<open>i\<close> over \<open>text\<close> and overwrites
  \<open>out\<close>; here the argument is \<open>text[i:]\<close> and the result is \<open>out[i:]\<close>.

  \<open>closer_end open_len s\<close> is the inner search for the closing run in \<open>s = text[i:]\<close>, after the
  opening run: the number of characters up to the end of the first run of exactly
  \<open>open_len\<close> backticks, or \<open>None\<close> when the search reaches the end of the text.
\<close>

function closer_end :: "nat \<Rightarrow> pystr \<Rightarrow> nat option" where
  "closer_end open_len [] = None"
| "closer_end open_len (c # cs) =
     (if c = BACKTICK then
        (let run = length (takeWhile (\<lambda>x. x = BACKTICK) (c # cs)) in
         if run = open_len then Some run
         else map_option (\<lambda>k. run + k)
                (closer_end open_len (dropWhile (\<lambda>x. x = BACKTICK) (c # cs))))
      else map_option Suc (closer_end open_len cs))"
  by pat_completeness auto
termination
proof (relation "measure (\<lambda>(open_len, s). length s)")
  fix open_len :: nat and c :: pychar and cs :: pystr
  assume "c = BACKTICK"
  then have "length (dropWhile (\<lambda>x. x = BACKTICK) (c # cs)) \<le> length cs"
    by (simp add: length_dropWhile_le)
  then show "((open_len, dropWhile (\<lambda>x. x = BACKTICK) (c # cs)), (open_len, c # cs))
      \<in> measure (\<lambda>(open_len, s). length s)"
    by simp
qed simp_all

function mask_inline_code_spans :: "pystr \<Rightarrow> pystr" where
  "mask_inline_code_spans [] = []"
| "mask_inline_code_spans (c # cs) =
     (if c = BACKSLASH then
        (let bs = takeWhile (\<lambda>x. x = BACKSLASH) (c # cs);
             rest = dropWhile (\<lambda>x. x = BACKSLASH) (c # cs)
         in if prefix [BACKTICK] rest \<and> length bs mod 2 = 1
            then bs @ BACKTICK # mask_inline_code_spans (tl rest)
            else bs @ mask_inline_code_spans rest)
      else if c = BACKTICK then
        (let opening = takeWhile (\<lambda>x. x = BACKTICK) (c # cs);
             rest = dropWhile (\<lambda>x. x = BACKTICK) (c # cs)
         in case closer_end (length opening) rest of
              Some k \<Rightarrow> replicate (length opening + k) SPACE @ mask_inline_code_spans (drop k rest)
            | None \<Rightarrow> opening @ mask_inline_code_spans rest)
      else c # mask_inline_code_spans cs)"
  by pat_completeness auto
termination
proof (relation "measure length")
  fix c :: pychar and cs x xa :: pystr
  assume "c = BACKSLASH" "x = takeWhile (\<lambda>x. x = BACKSLASH) (c # cs)"
    "xa = dropWhile (\<lambda>x. x = BACKSLASH) (c # cs)"
  then have le: "length xa \<le> length cs"
    by (simp add: length_dropWhile_le)
  then show "(xa, c # cs) \<in> measure length" by simp
  have "length (tl xa) \<le> length xa" by simp
  with le show "(tl xa, c # cs) \<in> measure length" by simp
next
  fix c :: pychar and cs x xa :: pystr
  assume "c = BACKTICK" "x = takeWhile (\<lambda>x. x = BACKTICK) (c # cs)"
    "xa = dropWhile (\<lambda>x. x = BACKTICK) (c # cs)"
  then have le: "length xa \<le> length cs"
    by (simp add: length_dropWhile_le)
  then show "(xa, c # cs) \<in> measure length" by simp
  fix k :: nat
  have "length (drop k xa) \<le> length xa" by simp
  with le show "(drop k xa, c # cs) \<in> measure length" by simp
qed simp_all

text \<open>\<open>s.find(sub)\<close>: the index of the first occurrence, \<open>None\<close> for \<open>-1\<close>.\<close>

fun py_find :: "pystr \<Rightarrow> pystr \<Rightarrow> nat option" where
  "py_find sub [] = (if sub = [] then Some 0 else None)"
| "py_find sub (c # cs) =
     (if prefix sub (c # cs) then Some 0 else map_option Suc (py_find sub cs))"

text \<open>
  \<open>_HTML_COMMENT_BLOCK_RE\<close>, \<open><!--.*?-->\<close> with \<open>DOTALL\<close>, matched at the start of \<open>masked\<close>: the
  length of the match, which ends with the first \<open>-->\<close> after the opener.

  \<open>splice_comments text masked\<close> is the loop over \<open>finditer(masked)\<close> together with the final
  join: \<open>text\<close> and \<open>masked\<close> are \<open>text[p:]\<close> and \<open>masked[p:]\<close> for the position \<open>p\<close> of the scan
  (they have the same length); where the pattern matches, the match is left out of the
  text and the scan goes on behind it, elsewhere the character of \<open>text\<close> is kept.
\<close>

definition comment_at :: "pystr \<Rightarrow> nat option" where
  "comment_at masked =
     (if prefix (u ''<!--'') masked
      then map_option (\<lambda>j. 4 + j + 3) (py_find (u ''-->'') (drop 4 masked))
      else None)"

function splice_comments :: "pystr \<Rightarrow> pystr \<Rightarrow> pystr" where
  "splice_comments [] masked = []"
| "splice_comments (c # cs) masked =
     (case comment_at masked of
        Some len \<Rightarrow> splice_comments (drop len (c # cs)) (drop len masked)
      | None \<Rightarrow> c # splice_comments cs (tl masked))"
  by pat_completeness auto
termination
proof (relation "measure (\<lambda>(text, masked). length text)")
  fix c :: pychar and cs masked :: pystr and len :: nat
  assume "comment_at masked = Some len"
  then have "0 < len"
    by (auto simp: comment_at_def split: if_splits)
  then show "((drop len (c # cs), drop len masked), (c # cs, masked))
      \<in> measure (\<lambda>(text, masked). length text)"
    by simp
qed simp_all

definition strip_html_comment_blocks :: "pystr \<Rightarrow> pystr" where
  "strip_html_comment_blocks text =
     (let masked = mask_inline_code_spans text;
          result = splice_comments text masked;
          result_masked = mask_inline_code_spans result
      in case py_find (u ''<!--'') result_masked of
           None \<Rightarrow> result
         | Some i \<Rightarrow> take i result)"

definition sanitize_status_text :: "pystr \<Rightarrow> pystr" where
  "sanitize_status_text text =
     strip_html_comment_blocks (strip_indented_code_blocks (strip_fenced_code_blocks text))"

section \<open>Notions used in the statements and proofs about md_sanitize.py\<close>

text \<open>A line with its terminator, a last line without one, and a list of lines as
  \<open>splitlines\<close> gives it: only the last line may lack the terminator.\<close>

definition complete_line :: "pystr \<Rightarrow> bool" where
  "complete_line l =
     (\<exists>body t. l = body @ t \<and> (\<forall>c \<in> set body. \<not> is_linebreak c)
        \<and> (t = [CR, LF] \<or> (\<exists>c. t = [c] \<and> is_linebreak c)))"

definition bare_line :: "pystr \<Rightarrow> bool" where
  "bare_line l = (l \<noteq> [] \<and> (\<forall>c \<in> set l. \<not> is_linebreak c))"

fun lines_ok :: "pystr list \<Rightarrow> bool" where
  "lines_ok [] = True"
| "lines_ok [l] = (complete_line l \<or> bare_line l)"
| "lines_ok (l # l' # ls) = (complete_line l \<and> lines_ok (l' # ls))"

text \<open>The state of the loop of \<open>strip_fenced_code_blocks\<close> after the given lines.\<close>

fun fence_after :: "fence_state \<Rightarrow> pystr list \<Rightarrow> fence_state" where
  "fence_after st [] = st"
| "fence_after Outside (line # rest) =
     (case fence_open line of
        Some (c, n) \<Rightarrow> fence_after (Inside c n) rest
      | None \<Rightarrow> fence_after Outside rest)"
| "fence_after (Inside fence_char fence_len) (line # rest) =
     (case fence_close line of
        Some (c, n) \<Rightarrow>
          if c = fence_char \<and> n \<ge> fence_len then fence_after Outside rest
          else fence_after (Inside fence_char fence_len) rest
      | None \<Rightarrow> fence_after (Inside fence_char fence_len) rest)"

text \<open>A line that opens a fence of \<open>n\<close> characters \<open>c\<close>: at most three blanks, then exactly
  \<open>n\<close> backticks or tildes (at least three), then anything. A line that is such a fence
  alone, as a closing line must be: only blanks follow the run, up to the end of the line
  or its LF.\<close>

definition opening_fence_line :: "pychar \<Rightarrow> nat \<Rightarrow> pystr \<Rightarrow> bool" where
  "opening_fence_line c n l =
     (\<exists>ws after. l = ws @ replicate n c @ after \<and> (\<forall>x \<in> set ws. is_blank x) \<and> length ws \<le> 3
        \<and> (c = BACKTICK \<or> c = TILDE) \<and> 3 \<le> n \<and> \<not> prefix [c] after)"

definition closing_fence_line :: "pychar \<Rightarrow> nat \<Rightarrow> pystr \<Rightarrow> bool" where
  "closing_fence_line c n l =
     (\<exists>ws ws' e. l = ws @ replicate n c @ ws' @ e \<and> (\<forall>x \<in> set ws. is_blank x) \<and> length ws \<le> 3
        \<and> (c = BACKTICK \<or> c = TILDE) \<and> 3 \<le> n \<and> (\<forall>x \<in> set ws'. is_blank x)
        \<and> (e = [] \<or> e = [LF]))"

text \<open>A line that closes a fence opened by four backticks.\<close>

definition closes4 :: "pystr \<Rightarrow> bool" where
  "closes4 l = (\<exists>n. 4 \<le> n \<and> closing_fence_line BACKTICK n l)"

text \<open>\<open>m\<close> is \<open>s\<close> with some characters replaced by spaces.\<close>

definition masked_of :: "pystr \<Rightarrow> pystr \<Rightarrow> bool" where
  "masked_of s m = list_all2 (\<lambda>a b. b = a \<or> b = SPACE) s m"

text \<open>A text with a fenced block, LF line ends written out: \<open>a\<close>, a fence of three
  backticks around \<open>x\<close>, \<open>b\<close>.\<close>

definition fenced_example :: pystr where
  "fenced_example = u ''a'' @ [LF] @ u ''```'' @ [LF] @ u ''x'' @ [LF] @ u ''```'' @ [LF]
     @ u ''b'' @ [LF]"

text \<open>A fence of four backticks around \<open>x\<close>, a line of three backticks and \<open>y\<close>, between
  \<open>a\<close> and \<open>b\<close>; and the same text cut before the closing line.\<close>

definition four_unclosed :: pystr where
  "four_unclosed = u ''a'' @ [LF] @ u ''````'' @ [LF] @ u ''x'' @ [LF] @ u ''```'' @ [LF]
     @ u ''y'' @ [LF]"

definition four_example :: pystr where
  "four_example = four_unclosed @ u ''````'' @ [LF] @ u ''b'' @ [LF]"

text \<open>Two texts without backtick and without \<open><!--\<close>: an indented line, and a fence of
  tildes.\<close>

definition indented_text :: pystr where
  "indented_text = u ''    x''"

definition tilde_text :: pystr where
  "tilde_text = u ''~~~'' @ [LF] @ u ''x'' @ [LF] @ u ''~~~'' @ [LF]"

text \<open>A plain text: two lines of prose.\<close>

definition plain_text :: pystr where
  "plain_text = u ''# Title'' @ [LF] @ u ''- item ~ ok'' @ [LF]"

section \<open>Proofs: the estimate hash\<close>

lemma canon_Nil: "canon [] = []"
  by (simp add: canon_def)

lemma canon_char: "c \<noteq> CR \<Longrightarrow> c \<noteq> LF \<Longrightarrow> canon (c # s) = c # canon s"
  by (simp add: canon_def)

lemma canon_LF: "canon (LF # s) = LF # canon s"
  by (simp add: canon_def)

lemma canon_CRLF: "canon (CR # LF # s) = LF # canon s"
  by (simp add: canon_def)

lemma canon_CR: "\<not> prefix [LF] s \<Longrightarrow> canon (CR # s) = LF # canon s"
  by (cases s) (simp_all add: canon_def)

lemma canon_eol:
  assumes "e \<in> line_endings" "lone_ok e s"
  shows "canon (e @ s) = LF # canon s"
  using assms by (auto simp: line_endings_def lone_ok_def canon_LF canon_CRLF canon_CR)

lemma same_but_eol_canon: "same_but_eol s t \<Longrightarrow> canon s = canon t"
  by (induction rule: same_but_eol.induct) (simp_all add: canon_char canon_eol)

lemma canon_snoc_eol:
  assumes "\<not> has_final_newline s" "e \<in> line_endings"
  shows "canon (s @ e) = canon s @ [LF]"
  using assms
proof (induction s rule: length_induct)
  case (1 s)
  show ?case
  proof (cases s)
    case Nil
    with 1(3) show ?thesis
      by (auto simp: line_endings_def canon_def)
  next
    case (Cons c cs)
    note s = Cons
    show ?thesis
    proof (cases cs)
      case Nil
      with s 1(2) have "c \<noteq> CR" "c \<noteq> LF"
        by (auto simp: has_final_newline_def)
      with s Nil 1(3) show ?thesis
        by (auto simp: line_endings_def canon_def)
    next
      case (Cons d ds)
      have nf: "\<not> has_final_newline cs"
        using 1(2) s Cons by (auto simp: has_final_newline_def)
      have ih: "canon (cs @ e) = canon cs @ [LF]"
        using 1(1) s nf 1(3) by simp
      have nf2: "\<not> has_final_newline ds"
        using nf Cons by (auto simp: has_final_newline_def split: if_splits)
      have ih2: "canon (ds @ e) = canon ds @ [LF]"
        using 1(1) s Cons nf2 1(3) by simp
      show ?thesis
      proof (cases "c = CR")
        case True
        show ?thesis
        proof (cases "d = LF")
          case True
          with \<open>c = CR\<close> s Cons ih2 show ?thesis
            by (simp add: canon_CRLF)
        next
          case False
          with \<open>c = CR\<close> s Cons ih show ?thesis
            by (simp add: canon_CR)
        qed
      next
        case False
        show ?thesis
        proof (cases "c = LF")
          case True
          with s ih show ?thesis by (simp add: canon_LF)
        next
          case False
          with \<open>c \<noteq> CR\<close> s ih show ?thesis by (simp add: canon_char)
        qed
      qed
    qed
  qed
qed

lemma canon_no_final_LF:
  assumes "\<not> has_final_newline s"
  shows "\<not> suffix [LF] (canon s)"
  using assms
proof (induction s rule: length_induct)
  case (1 s)
  show ?case
  proof (cases s)
    case Nil
    then show ?thesis by (simp add: canon_Nil)
  next
    case (Cons c cs)
    note s = Cons
    show ?thesis
    proof (cases cs)
      case Nil
      with s 1(2) have "c \<noteq> CR" "c \<noteq> LF"
        by (auto simp: has_final_newline_def)
      with s Nil show ?thesis
        by (simp add: canon_char canon_Nil suffix_Cons)
    next
      case (Cons d ds)
      have nf: "\<not> has_final_newline cs"
        using 1(2) s Cons by (auto simp: has_final_newline_def)
      have ih: "\<not> suffix [LF] (canon cs)"
        using 1(1) s nf by simp
      have cs_ne: "canon cs \<noteq> []"
        using Cons by (cases "d = CR"; cases "d = LF"; cases ds)
          (auto simp: canon_def)
      have step: "\<And>x. \<not> suffix [LF] (x # canon cs)"
        using ih cs_ne by (auto simp: suffix_Cons)
      have nf2: "\<not> has_final_newline ds"
        using nf Cons by (auto simp: has_final_newline_def split: if_splits)
      have ih2: "\<not> suffix [LF] (canon ds)"
        using 1(1) s Cons nf2 by simp
      show ?thesis
      proof (cases "c = CR")
        case True
        show ?thesis
        proof (cases "d = LF")
          case True
          have "ds \<noteq> []"
            using nf Cons True by (auto simp: has_final_newline_def)
          then have "canon ds \<noteq> []"
            by (cases ds) (auto simp: canon_def)
          with ih2 have "\<not> suffix [LF] (LF # canon ds)"
            by (auto simp: suffix_Cons)
          with \<open>c = CR\<close> True s Cons show ?thesis
            by (simp add: canon_CRLF)
        next
          case False
          with \<open>c = CR\<close> s Cons step show ?thesis
            by (simp add: canon_CR)
        qed
      next
        case False
        show ?thesis
        proof (cases "c = LF")
          case True
          with s step show ?thesis by (simp add: canon_LF)
        next
          case False
          with \<open>c \<noteq> CR\<close> s step show ?thesis by (simp add: canon_char)
        qed
      qed
    qed
  qed
qed

lemma canon_final_LF:
  assumes "has_final_newline s"
  shows "suffix [LF] (canon s)"
  using assms
proof (induction s rule: length_induct)
  case (1 s)
  show ?case
  proof (cases s)
    case Nil
    with 1(2) show ?thesis by (simp add: has_final_newline_def)
  next
    case (Cons c cs)
    note s = Cons
    show ?thesis
    proof (cases cs)
      case Nil
      with s 1(2) show ?thesis
        by (auto simp: has_final_newline_def canon_def)
    next
      case (Cons d ds)
      have f: "has_final_newline cs"
        using 1(2) s Cons by (auto simp: has_final_newline_def)
      have ih: "suffix [LF] (canon cs)"
        using 1(1) s f by simp
      show ?thesis
      proof (cases "c = CR \<and> d = LF")
        case True
        show ?thesis
        proof (cases ds)
          case Nil
          with True s Cons show ?thesis by (simp add: canon_def)
        next
          case (Cons x xs)
          then have "has_final_newline ds"
            using f \<open>cs = d # ds\<close> by (auto simp: has_final_newline_def)
          then have "suffix [LF] (canon ds)"
            using 1(1) s \<open>cs = d # ds\<close> by simp
          with True s \<open>cs = d # ds\<close> show ?thesis
            by (simp add: canon_CRLF suffix_Cons)
        qed
      next
        case False
        then have "canon (c # cs) = (if c = CR then LF else c) # canon cs"
          using Cons by (cases "c = CR"; cases "c = LF") (auto simp: canon_CR canon_LF canon_char)
        with s ih show ?thesis
          by (simp add: suffix_Cons)
      qed
    qed
  qed
qed

lemma normalize_text_for_hash_alt:
  "normalize_text_for_hash s = utf8_encode (hash_text s)"
  by (simp add: normalize_text_for_hash_def hash_text_def canon_def Let_def)

lemma hash_text_snoc_eol:
  assumes "\<not> has_final_newline s" "e \<in> line_endings"
  shows "hash_text (s @ e) = hash_text s"
  using assms by (simp add: hash_text_def canon_snoc_eol canon_no_final_LF)

lemma differ_only_in_eol_hash_text:
  assumes "differ_only_in_eol s t"
  shows "hash_text s = hash_text t"
proof -
  have same: "\<And>a b. same_but_eol a b \<Longrightarrow> hash_text a = hash_text b"
    by (simp add: hash_text_def same_but_eol_canon)
  from assms consider
      "same_but_eol s t"
    | e where "\<not> has_final_newline s" "e \<in> line_endings" "same_but_eol (s @ e) t"
    | e where "\<not> has_final_newline t" "e \<in> line_endings" "same_but_eol s (t @ e)"
    by (auto simp: differ_only_in_eol_def)
  then show ?thesis
  proof cases
    case 1
    then show ?thesis by (rule same)
  next
    case 2
    then show ?thesis
      using same [of "s @ e" t] hash_text_snoc_eol [of s e] by simp
  next
    case 3
    then show ?thesis
      using same [of s "t @ e"] hash_text_snoc_eol [of t e] by simp
  qed
qed

text \<open>
  C10. Two estimate texts that differ only in line-ending convention (CR LF or a lone
  CR against LF) and in the presence of a final newline are normalised to the same
  bytes by \<open>normalize_text_for_hash\<close>, so the \<open>sha256:<hex>\<close> hash that the approval gate
  computes is the same for both, whatever the digest function.
\<close>

theorem normalize_text_for_hash_eol_invariant:
  assumes "differ_only_in_eol s t"
  shows "normalize_text_for_hash s = normalize_text_for_hash t
         \<and> computed_hash hexdigest s = computed_hash hexdigest t"
  using differ_only_in_eol_hash_text [OF assms]
  by (simp add: normalize_text_for_hash_alt computed_hash_def)

theorem normalize_text_for_hash_eol_invariant_witness:
  "differ_only_in_eol estimate_crlf estimate_lf
   \<and> normalize_text_for_hash estimate_crlf = normalize_text_for_hash estimate_lf
   \<and> normalize_text_for_hash estimate_lf = Inr [97, 10, 98, 10]"
proof -
  have 1: "same_but_eol [LF] [LF]"
    using Eol_eol [of "[LF]" "[LF]" "[]" "[]"] Nil_eol
    by (simp add: line_endings_def lone_ok_def)
  have 2: "same_but_eol [98, LF] [98, LF]"
    using Char_eol [OF _ _ 1, of 98] by simp
  have 3: "same_but_eol ([CR, LF] @ [98, LF]) ([LF] @ [98, LF])"
    by (rule Eol_eol [OF _ _ _ _ 2]) (simp_all add: line_endings_def lone_ok_def)
  have 4: "same_but_eol (97 # [CR, LF] @ [98, LF]) (97 # [LF] @ [98, LF])"
    by (rule Char_eol [OF _ _ 3]) simp_all
  have "\<not> has_final_newline estimate_crlf"
    by (simp add: has_final_newline_def estimate_crlf_def u_def)
  moreover have "same_but_eol (estimate_crlf @ [LF]) estimate_lf"
    using 4 by (simp add: estimate_crlf_def estimate_lf_def u_def)
  ultimately have d: "differ_only_in_eol estimate_crlf estimate_lf"
    by (auto simp: differ_only_in_eol_def line_endings_def)
  have "normalize_text_for_hash estimate_lf = Inr [97, 10, 98, 10]"
    by (simp add: normalize_text_for_hash_def estimate_lf_def u_def utf8_char_def Let_def suffix_Cons)
  with d normalize_text_for_hash_eol_invariant [OF d] show ?thesis
    by simp
qed

section \<open>Proofs: the review record\<close>

lemma validate_review_complete:
  assumes "missing_of required_keys obj = []" "hashable (dict_get obj (u ''status''))"
  shows "\<exists>pre. validate_review obj e = Returned (pre @ cross_field (dict_get obj (u ''status''))
      (case dict_get obj (u ''findings'') of JArr fs \<Rightarrow> fs | _ \<Rightarrow> [])
      (case dict_get obj (u ''questions'') of
         JArr qs \<Rightarrow> if list_all is_str qs then qs else [] | _ \<Rightarrow> []))"
  using assms
  by (cases "dict_get obj (u ''questions'')") (simp_all add: validate_review_def Let_def)

lemma validate_review_incomplete:
  assumes "missing_of required_keys obj \<noteq> []"
  shows "validate_review obj e = Returned [MissingKeys (missing_of required_keys obj)]"
  using assms by (simp add: validate_review_def Let_def)

lemma validate_review_reports:
  assumes "hashable (dict_get obj (u ''status''))"
    and "x \<in> set (cross_field (dict_get obj (u ''status''))
      (case dict_get obj (u ''findings'') of JArr fs \<Rightarrow> fs | _ \<Rightarrow> [])
      (case dict_get obj (u ''questions'') of
         JArr qs \<Rightarrow> if list_all is_str qs then qs else [] | _ \<Rightarrow> []))"
  shows "\<exists>errs. validate_review obj e = Returned errs \<and> errs \<noteq> []
           \<and> (missing_of required_keys obj = [] \<longrightarrow> x \<in> set errs)"
proof (cases "missing_of required_keys obj = []")
  case True
  from validate_review_complete [OF True assms(1), of e] obtain pre where
    "validate_review obj e = Returned (pre @ cross_field (dict_get obj (u ''status''))
      (case dict_get obj (u ''findings'') of JArr fs \<Rightarrow> fs | _ \<Rightarrow> [])
      (case dict_get obj (u ''questions'') of
         JArr qs \<Rightarrow> if list_all is_str qs then qs else [] | _ \<Rightarrow> []))"
    by blast
  with assms(2) show ?thesis by auto
next
  case False
  then show ?thesis by (simp add: validate_review_incomplete)
qed

lemma questions_not_strings_reported:
  assumes "hashable (dict_get obj (u ''status''))"
    and "dict_get obj (u ''questions'') = JArr qs" "\<not> list_all is_str qs"
  shows "\<exists>errs. validate_review obj e = Returned errs \<and> errs \<noteq> []"
  using assms by (simp add: validate_review_def Let_def)

lemma blocking_empty:
  assumes "\<forall>d. JObj d \<in> set fs \<longrightarrow>
      dict_get d (u ''priority'') \<noteq> JStr (u ''P0'') \<and> dict_get d (u ''priority'') \<noteq> JStr (u ''P1'')"
  shows "blocking fs = []"
proof -
  have "\<not> is_blocking f" if "f \<in> set fs" for f
  proof (cases f)
    case (JObj d)
    with that have "JObj d \<in> set fs" by simp
    with assms have "dict_get d (u ''priority'') \<noteq> JStr (u ''P0'')
        \<and> dict_get d (u ''priority'') \<noteq> JStr (u ''P1'')"
      by blast
    with JObj show ?thesis by simp
  qed simp_all
  then show ?thesis
    by (simp add: blocking_def filter_empty_conv)
qed

lemma status_distinct:
  "u ''Approved'' \<noteq> u ''Approved with nits''" "u ''Approved'' \<noteq> u ''Blocked''"
  "u ''Approved'' \<noteq> u ''Question''" "u ''Blocked'' \<noteq> u ''Question''"
  "u ''Blocked'' \<noteq> u ''Approved with nits''" "u ''Question'' \<noteq> u ''Approved with nits''"
  by (simp_all add: u_def)

lemma approved_clean:
  assumes "dict_get obj (u ''status'') = JStr (u ''Approved'')"
    and "dict_get obj (u ''findings'') = JArr []" "dict_get obj (u ''questions'') = JArr []"
  shows "\<exists>errs. validate_review obj e = Returned errs
      \<and> set errs \<inter> {ApprovedFindings, ApprovedQuestions, NitsBlocking, NitsQuestions,
                      BlockedNoBlocking, QuestionNoQuestion} = {}"
  using assms 
  by (auto simp: validate_review_def Let_def cross_field_def status_distinct split: json.splits option.splits)

text \<open>
  C9. \<open>validate_review\<close> reports an error whenever the status is \<open>Approved\<close> and the
  findings list or the questions list is non-empty, and whenever the status is
  \<open>Blocked\<close> and no finding has priority \<open>P0\<close> or \<open>P1\<close>: the returned list is non-empty, and
  when no required key is missing it holds the cross-field message itself (for the
  questions, when they are all strings; otherwise the message about their type is
  there). For an \<open>Approved\<close> record with empty findings and questions the cross-field
  checks add nothing.
\<close>

theorem validate_review_cross_field_rules:
  "(dict_get obj (u ''status'') = JStr (u ''Approved'')
      \<and> dict_get obj (u ''findings'') = JArr fs \<and> fs \<noteq> []
    \<longrightarrow> (\<exists>errs. validate_review obj e = Returned errs \<and> errs \<noteq> []
           \<and> (missing_of required_keys obj = [] \<longrightarrow> ApprovedFindings \<in> set errs)))
   \<and> (dict_get obj (u ''status'') = JStr (u ''Approved'')
      \<and> dict_get obj (u ''questions'') = JArr qs \<and> qs \<noteq> []
    \<longrightarrow> (\<exists>errs. validate_review obj e = Returned errs \<and> errs \<noteq> []
           \<and> (missing_of required_keys obj = [] \<and> list_all is_str qs
                \<longrightarrow> ApprovedQuestions \<in> set errs)))
   \<and> (dict_get obj (u ''status'') = JStr (u ''Blocked'')
      \<and> dict_get obj (u ''findings'') = JArr fs
      \<and> (\<forall>d. JObj d \<in> set fs \<longrightarrow> dict_get d (u ''priority'') \<noteq> JStr (u ''P0'')
                                   \<and> dict_get d (u ''priority'') \<noteq> JStr (u ''P1''))
    \<longrightarrow> (\<exists>errs. validate_review obj e = Returned errs \<and> errs \<noteq> []
           \<and> (missing_of required_keys obj = [] \<longrightarrow> BlockedNoBlocking \<in> set errs)))
   \<and> (dict_get obj (u ''status'') = JStr (u ''Approved'')
      \<and> dict_get obj (u ''findings'') = JArr [] \<and> dict_get obj (u ''questions'') = JArr []
    \<longrightarrow> cross_field (dict_get obj (u ''status'')) [] [] = []
        \<and> (\<exists>errs. validate_review obj e = Returned errs
             \<and> set errs \<inter> {ApprovedFindings, ApprovedQuestions, NitsBlocking, NitsQuestions,
                             BlockedNoBlocking, QuestionNoQuestion} = {}))"
proof (intro conjI impI)
  assume a: "dict_get obj (u ''status'') = JStr (u ''Approved'')
      \<and> dict_get obj (u ''findings'') = JArr fs \<and> fs \<noteq> []"
  then have "ApprovedFindings \<in> set (cross_field (dict_get obj (u ''status''))
      (case dict_get obj (u ''findings'') of JArr fs \<Rightarrow> fs | _ \<Rightarrow> [])
      (case dict_get obj (u ''questions'') of
         JArr qs \<Rightarrow> if list_all is_str qs then qs else [] | _ \<Rightarrow> []))"
    by (simp add: cross_field_def)
  with a show "\<exists>errs. validate_review obj e = Returned errs \<and> errs \<noteq> []
           \<and> (missing_of required_keys obj = [] \<longrightarrow> ApprovedFindings \<in> set errs)"
    by (intro validate_review_reports) simp_all
next
  assume a: "dict_get obj (u ''status'') = JStr (u ''Approved'')
      \<and> dict_get obj (u ''questions'') = JArr qs \<and> qs \<noteq> []"
  show "\<exists>errs. validate_review obj e = Returned errs \<and> errs \<noteq> []
           \<and> (missing_of required_keys obj = [] \<and> list_all is_str qs
                \<longrightarrow> ApprovedQuestions \<in> set errs)"
  proof (cases "list_all is_str qs")
    case True
    with a have "ApprovedQuestions \<in> set (cross_field (dict_get obj (u ''status''))
      (case dict_get obj (u ''findings'') of JArr fs \<Rightarrow> fs | _ \<Rightarrow> [])
      (case dict_get obj (u ''questions'') of
         JArr qs \<Rightarrow> if list_all is_str qs then qs else [] | _ \<Rightarrow> []))"
      by (simp add: cross_field_def)
    with a have "\<exists>errs. validate_review obj e = Returned errs \<and> errs \<noteq> []
           \<and> (missing_of required_keys obj = [] \<longrightarrow> ApprovedQuestions \<in> set errs)"
      by (intro validate_review_reports) simp_all
    then show ?thesis by blast
  next
    case False
    with a questions_not_strings_reported [of obj qs e] show ?thesis by auto
  qed
next
  assume a: "dict_get obj (u ''status'') = JStr (u ''Blocked'')
      \<and> dict_get obj (u ''findings'') = JArr fs
      \<and> (\<forall>d. JObj d \<in> set fs \<longrightarrow> dict_get d (u ''priority'') \<noteq> JStr (u ''P0'')
                                   \<and> dict_get d (u ''priority'') \<noteq> JStr (u ''P1''))"
  then have "blocking fs = []"
    by (intro blocking_empty) simp
  with a have "BlockedNoBlocking \<in> set (cross_field (dict_get obj (u ''status''))
      (case dict_get obj (u ''findings'') of JArr fs \<Rightarrow> fs | _ \<Rightarrow> [])
      (case dict_get obj (u ''questions'') of
         JArr qs \<Rightarrow> if list_all is_str qs then qs else [] | _ \<Rightarrow> []))"
    by (simp add: cross_field_def)
  with a show "\<exists>errs. validate_review obj e = Returned errs \<and> errs \<noteq> []
           \<and> (missing_of required_keys obj = [] \<longrightarrow> BlockedNoBlocking \<in> set errs)"
    by (intro validate_review_reports) simp_all
next
  assume a: "dict_get obj (u ''status'') = JStr (u ''Approved'')
      \<and> dict_get obj (u ''findings'') = JArr [] \<and> dict_get obj (u ''questions'') = JArr []"
  then show "cross_field (dict_get obj (u ''status'')) [] [] = []"
    by (simp add: cross_field_def status_distinct)
  from a show "\<exists>errs. validate_review obj e = Returned errs
             \<and> set errs \<inter> {ApprovedFindings, ApprovedQuestions, NitsBlocking, NitsQuestions,
                             BlockedNoBlocking, QuestionNoQuestion} = {}"
    by (intro approved_clean) simp_all
qed


theorem validate_review_cross_field_rules_witness:
  "(\<exists>errs. validate_review ((u ''findings'', JArr [JNull]) # review_ok) None = Returned errs
        \<and> ApprovedFindings \<in> set errs)
   \<and> (\<exists>errs. validate_review ((u ''questions'', JArr [JStr (u ''why'')]) # review_ok) None
          = Returned errs \<and> ApprovedQuestions \<in> set errs)
   \<and> (\<exists>errs. validate_review ((u ''status'', JStr (u ''Blocked'')) # review_ok) None
          = Returned errs \<and> BlockedNoBlocking \<in> set errs)
   \<and> (\<exists>errs. validate_review review_ok None = Returned errs
          \<and> set errs \<inter> {ApprovedFindings, ApprovedQuestions, NitsBlocking, NitsQuestions,
                          BlockedNoBlocking, QuestionNoQuestion} = {})"
proof -
  note ev = dict_get_def review_ok_def u_def missing_of_def required_keys_def dict_keys_def
  have "\<exists>errs. validate_review ((u ''findings'', JArr [JNull]) # review_ok) None = Returned errs
        \<and> ApprovedFindings \<in> set errs"
    using validate_review_cross_field_rules
      [where obj = "(u ''findings'', JArr [JNull]) # review_ok" and fs = "[JNull]" and qs = "[]" and e = None]
    by (auto simp: ev)
  moreover
  have "\<exists>errs. validate_review ((u ''questions'', JArr [JStr (u ''why'')]) # review_ok) None
          = Returned errs \<and> ApprovedQuestions \<in> set errs"
    using validate_review_cross_field_rules
      [where obj = "(u ''questions'', JArr [JStr (u ''why'')]) # review_ok"
         and qs = "[JStr (u ''why'')]" and fs = "[]" and e = None]
    by (auto simp: ev)
  moreover
  have "\<exists>errs. validate_review ((u ''status'', JStr (u ''Blocked'')) # review_ok) None
          = Returned errs \<and> BlockedNoBlocking \<in> set errs"
    using validate_review_cross_field_rules
      [where obj = "(u ''status'', JStr (u ''Blocked'')) # review_ok" and fs = "[]" and qs = "[]" and e = None]
    by (auto simp: ev)
  moreover
  have "\<exists>errs. validate_review review_ok None = Returned errs
          \<and> set errs \<inter> {ApprovedFindings, ApprovedQuestions, NitsBlocking, NitsQuestions,
                          BlockedNoBlocking, QuestionNoQuestion} = {}"
    using validate_review_cross_field_rules [where obj = review_ok and fs = "[]" and qs = "[]" and e = None]
    by (auto simp: ev)
  ultimately show ?thesis by blast
qed

section \<open>Proofs: reference resolution\<close>

lemma split_on_nonempty: "split_on sep s \<noteq> []"
  by (induction s) (auto split: list.splits)

lemma split_on_append_sep:
  "split_on sep (a @ sep # b) = split_on sep a @ split_on sep b"
proof (induction a)
  case Nil
  then show ?case by simp
next
  case (Cons c a)
  obtain w ws where "split_on sep a = w # ws"
    using split_on_nonempty [of sep a] by (cases "split_on sep a") auto
  with Cons show ?case by simp
qed

lemma split_on_no_sep: "sep \<notin> set s \<Longrightarrow> split_on sep s = [s]"
  by (induction s) auto

lemma dotdot_segment_split:
  assumes "dotdot_segment p"
  shows "u ''..'' \<in> set (split_on SLASH p)"
proof -
  from assms obtain a b where p: "p = a @ u ''..'' @ b"
    and a: "a = [] \<or> last a = SLASH" and b: "b = [] \<or> hd b = SLASH"
    by (auto simp: dotdot_segment_def)
  have dd: "split_on SLASH (u ''..'') = [u ''..'']"
    by (simp add: u_def)
  have mid: "u ''..'' \<in> set (split_on SLASH (u ''..'' @ b))"
  proof (cases b)
    case Nil
    then show ?thesis by (simp add: dd)
  next
    case (Cons c b')
    with b have "u ''..'' @ b = u ''..'' @ SLASH # b'" by simp
    then show ?thesis
      by (simp only: split_on_append_sep dd) simp
  qed
  show ?thesis
  proof (cases "a = []")
    case True
    with p mid show ?thesis by simp
  next
    case False
    with a obtain a' where "a = a' @ [SLASH]"
      by (metis append_butlast_last_id)
    with p have "p = a' @ SLASH # (u ''..'' @ b)" by simp
    with mid show ?thesis
      by (simp only: split_on_append_sep) simp
  qed
qed

lemma is_safe_repo_relative_sound:
  assumes "is_safe_repo_relative rel"
  shows "rel \<noteq> [] \<and> rel \<noteq> u ''.'' \<and> rel \<noteq> u ''..'' \<and> \<not> prefix (u ''/'') rel
         \<and> \<not> dotdot_segment rel"
proof -
  from assms have 1: "rel \<noteq> []" and 2: "\<not> prefix (u ''/'') rel"
    and 3: "u ''..'' \<notin> set (filter (\<lambda>p. p \<noteq> []) (split_on SLASH rel))"
    and 4: "rel \<noteq> u ''.''" "rel \<noteq> u ''..''"
    by (auto simp: is_safe_repo_relative_def split: if_splits)
  have "u ''..'' \<noteq> []" by (simp add: u_def)
  with 3 have "u ''..'' \<notin> set (split_on SLASH rel)" by simp
  with dotdot_segment_split have "\<not> dotdot_segment rel" by blast
  with 1 2 4 show ?thesis by simp
qed

lemma resolve_ref_returns_safe:
  assumes "resolve_ref_to_repo_path env repo_root ref = Inr rel"
  shows "is_safe_repo_relative rel"
  using assms
  by (auto simp: resolve_ref_to_repo_path_def Let_def split: if_splits sum.splits)

lemma resolve_ref_relative:
  assumes "plain_relative env ref"
  shows "resolve_ref_to_repo_path env repo_root ref =
    (if \<not> is_safe_repo_relative (relative_candidate ref)
     then Inl (ValueError (u ''unsafe repo-relative path: '' @ relative_candidate ref))
     else Inr (relative_candidate ref))"
  using assms
  by (auto simp: plain_relative_def resolve_ref_to_repo_path_def relative_candidate_def Let_def
      split: sum.splits)

lemma dotdot_segment_unsafe: "dotdot_segment p \<Longrightarrow> \<not> is_safe_repo_relative p"
  using is_safe_repo_relative_sound by blast

text \<open>
  C2. \<open>resolve_ref_to_repo_path\<close> never returns a candidate that is empty, equal to \<open>.\<close> or
  \<open>..\<close>, absolute, or that has a \<open>..\<close> segment, whatever \<open>urlparse\<close>, \<open>realpath\<close> and
  \<open>relpath\<close> return. A reference whose normalised form (the candidate after path
  normalisation) has a \<open>..\<close> segment raises \<open>ValueError\<close>; so does \<open>../../etc/passwd\<close>, for
  every repo root.
\<close>

theorem resolve_ref_to_repo_path_never_unsafe:
  "(resolve_ref_to_repo_path env repo_root ref = Inr rel
      \<longrightarrow> rel \<noteq> [] \<and> rel \<noteq> u ''.'' \<and> rel \<noteq> u ''..'' \<and> \<not> prefix (u ''/'') rel
          \<and> \<not> dotdot_segment rel)
   \<and> (plain_relative env ref \<and> dotdot_segment (relative_candidate ref)
      \<longrightarrow> resolve_ref_to_repo_path env repo_root ref
            = Inl (ValueError (u ''unsafe repo-relative path: '' @ relative_candidate ref)))
   \<and> (plain_relative env (u ''../../etc/passwd'')
      \<longrightarrow> resolve_ref_to_repo_path env repo_root (u ''../../etc/passwd'')
            = Inl (ValueError (u ''unsafe repo-relative path: ../../etc/passwd'')))"
proof -
  have 1: "rel \<noteq> [] \<and> rel \<noteq> u ''.'' \<and> rel \<noteq> u ''..'' \<and> \<not> prefix (u ''/'') rel
          \<and> \<not> dotdot_segment rel"
    if "resolve_ref_to_repo_path env repo_root ref = Inr rel"
  proof -
    from that have "is_safe_repo_relative rel" by (rule resolve_ref_returns_safe)
    then show ?thesis by (rule is_safe_repo_relative_sound)
  qed
  have 2: "resolve_ref_to_repo_path env repo_root ref
            = Inl (ValueError (u ''unsafe repo-relative path: '' @ relative_candidate ref))"
    if "plain_relative env ref \<and> dotdot_segment (relative_candidate ref)"
    using that by (simp add: resolve_ref_relative dotdot_segment_unsafe)
  have c: "relative_candidate (u ''../../etc/passwd'') = u ''../../etc/passwd''"
    by (simp add: relative_candidate_def normalize_reference_def py_strip_def py_lstrip_def
        py_rstrip_def py_isspace_def md_link_at_def normpath_def normpath_step_def u_def Let_def)
  have "\<not> is_safe_repo_relative (u ''../../etc/passwd'')"
    by (simp add: is_safe_repo_relative_def u_def)
  with c have 3: "resolve_ref_to_repo_path env repo_root (u ''../../etc/passwd'')
            = Inl (ValueError (u ''unsafe repo-relative path: ../../etc/passwd''))"
    if "plain_relative env (u ''../../etc/passwd'')"
    using that by (simp add: resolve_ref_relative) (simp add: u_def)
  from 1 2 3 show ?thesis by blast
qed

theorem resolve_ref_to_repo_path_never_unsafe_witness:
  "resolve_ref_to_repo_path plain_env (u ''/repo'') (u ''./docs/prd/../x.md'') = Inr (u ''docs/x.md'')
   \<and> \<not> dotdot_segment (u ''docs/x.md'')
   \<and> plain_relative plain_env (u ''docs/../../x.md'')
   \<and> dotdot_segment (relative_candidate (u ''docs/../../x.md''))
   \<and> resolve_ref_to_repo_path plain_env (u ''/repo'') (u ''docs/../../x.md'')
       = Inl (ValueError (u ''unsafe repo-relative path: ../x.md''))
   \<and> plain_relative plain_env (u ''../../etc/passwd'')
   \<and> resolve_ref_to_repo_path plain_env (u ''/repo'') (u ''../../etc/passwd'')
       = Inl (ValueError (u ''unsafe repo-relative path: ../../etc/passwd''))"
proof -
  note ev = normalize_reference_def py_strip_def py_lstrip_def py_rstrip_def py_isspace_def
    md_link_at_def normpath_def normpath_step_def u_def Let_def plain_env_def
    resolve_ref_to_repo_path_def is_safe_repo_relative_def plain_relative_def
    relative_candidate_def
  have r1: "resolve_ref_to_repo_path plain_env (u ''/repo'') (u ''./docs/prd/../x.md'')
      = Inr (u ''docs/x.md'')"
    by (simp add: ev)
  have p2: "plain_relative plain_env (u ''docs/../../x.md'')"
    by (simp add: ev)
  have c2: "relative_candidate (u ''docs/../../x.md'') = u ''../x.md''"
    by (simp add: ev)
  have "u ''../x.md'' = [] @ u ''..'' @ u ''/x.md''"
    by (simp add: u_def)
  then have d2: "dotdot_segment (u ''../x.md'')"
    unfolding dotdot_segment_def by (intro exI [of _ "[]"] exI [of _ "u ''/x.md''"]) (simp add: u_def)
  have p3: "plain_relative plain_env (u ''../../etc/passwd'')"
    by (simp add: ev)
  from resolve_ref_to_repo_path_never_unsafe
      [of plain_env "u ''/repo''" "u ''./docs/prd/../x.md''" "u ''docs/x.md''"] r1
  have "\<not> dotdot_segment (u ''docs/x.md'')" by blast
  moreover
  from resolve_ref_to_repo_path_never_unsafe
      [of plain_env "u ''/repo''" "u ''docs/../../x.md''" "[]"] p2 d2 c2
  have "resolve_ref_to_repo_path plain_env (u ''/repo'') (u ''docs/../../x.md'')
       = Inl (ValueError (u ''unsafe repo-relative path: ../x.md''))"
    by (simp add: u_def)
  moreover
  from resolve_ref_to_repo_path_never_unsafe [of plain_env "u ''/repo''" "[]" "[]"] p3
  have "resolve_ref_to_repo_path plain_env (u ''/repo'') (u ''../../etc/passwd'')
       = Inl (ValueError (u ''unsafe repo-relative path: ../../etc/passwd''))"
    by blast
  ultimately show ?thesis using r1 p2 d2 c2 p3 by simp
qed

section \<open>Proofs: lines and fences\<close>

lemma concat_splitlines_keepends: "concat (splitlines_keepends s) = s"
proof (induction s rule: splitlines_keepends.induct)
  case 1
  then show ?case by simp
next
  case (2 c cs)
  show ?case
  proof (cases "is_linebreak c")
    case True
    with 2 show ?thesis by (cases cs) auto
  next
    case False
    with 2 show ?thesis by (cases "splitlines_keepends cs") auto
  qed
qed

lemma complete_line_nonempty: "complete_line l \<Longrightarrow> l \<noteq> []"
  by (auto simp: complete_line_def)

lemma complete_line_Cons:
  "\<not> is_linebreak c \<Longrightarrow> complete_line l \<Longrightarrow> complete_line (c # l)"
  unfolding complete_line_def
  by (metis append_Cons set_ConsD)

lemma bare_line_Cons:
  "\<not> is_linebreak c \<Longrightarrow> bare_line l \<Longrightarrow> bare_line (c # l)"
  by (auto simp: bare_line_def)

lemma complete_line_single: "is_linebreak c \<Longrightarrow> complete_line [c]"
  unfolding complete_line_def by (rule exI [of _ "[]"], rule exI [of _ "[c]"]) simp

lemma complete_line_CRLF: "complete_line [CR, LF]"
  unfolding complete_line_def by (rule exI [of _ "[]"], rule exI [of _ "[CR, LF]"]) simp

lemma lines_ok_Cons_complete: "complete_line l \<Longrightarrow> lines_ok ls \<Longrightarrow> lines_ok (l # ls)"
  by (cases ls) auto

lemma lines_ok_tl: "lines_ok (l # ls) \<Longrightarrow> lines_ok ls"
  by (cases ls) auto

lemma lines_ok_hd: "lines_ok (l # ls) \<Longrightarrow> complete_line l \<or> bare_line l"
  by (cases ls) auto

lemma lines_ok_hd_complete: "lines_ok (l # ls) \<Longrightarrow> ls \<noteq> [] \<Longrightarrow> complete_line l"
  by (cases ls) auto

lemma lines_ok_prepend:
  "\<not> is_linebreak c \<Longrightarrow> lines_ok (l # ls) \<Longrightarrow> lines_ok ((c # l) # ls)"
  by (cases ls) (auto simp: complete_line_Cons bare_line_Cons)

lemma lines_ok_splitlines_keepends: "lines_ok (splitlines_keepends s)"
proof (induction s rule: splitlines_keepends.induct)
  case 1
  then show ?case by simp
next
  case (2 c cs)
  show ?case
  proof (cases "is_linebreak c")
    case True
    show ?thesis
    proof (cases cs)
      case Nil
      with True show ?thesis by (simp add: complete_line_single)
    next
      case (Cons d ds)
      with True 2 show ?thesis
        by (auto simp: complete_line_single complete_line_CRLF intro!: lines_ok_Cons_complete)
    qed
  next
    case False
    show ?thesis
    proof (cases "splitlines_keepends cs")
      case Nil
      with False show ?thesis by (simp add: bare_line_def)
    next
      case (Cons l ls)
      with False 2 show ?thesis by (simp add: lines_ok_prepend)
    qed
  qed
qed

lemma splitlines_keepends_body:
  assumes "\<forall>c \<in> set body. \<not> is_linebreak c"
  shows "splitlines_keepends (body @ r) =
    (case splitlines_keepends r of
       [] \<Rightarrow> (if body = [] then [] else [body])
     | l # ls \<Rightarrow> (body @ l) # ls)"
  using assms
proof (induction body)
  case Nil
  then show ?case by (simp split: list.splits)
next
  case (Cons c body)
  then show ?case by (cases body) (auto split: list.splits)
qed

lemma splitlines_keepends_term:
  assumes "is_linebreak c" "\<not> (c = CR \<and> prefix [LF] r)"
  shows "splitlines_keepends (c # r) = [c] # splitlines_keepends r"
  using assms by (cases r) auto

lemma splitlines_keepends_CRLF:
  "splitlines_keepends (CR # LF # r) = [CR, LF] # splitlines_keepends r"
  by (simp add: is_linebreak_def)

lemma splitlines_keepends_complete:
  assumes "complete_line l" "\<not> (last l = CR \<and> prefix [LF] r)"
  shows "splitlines_keepends (l @ r) = l # splitlines_keepends r"
proof -
  from assms(1) obtain body t where l: "l = body @ t"
    and body: "\<forall>c \<in> set body. \<not> is_linebreak c"
    and t: "t = [CR, LF] \<or> (\<exists>c. t = [c] \<and> is_linebreak c)"
    by (auto simp: complete_line_def)
  from t show ?thesis
  proof
    assume "t = [CR, LF]"
    with l body show ?thesis
      by (simp add: splitlines_keepends_body [OF body] splitlines_keepends_CRLF
          del: splitlines_keepends.simps)
  next
    assume "\<exists>c. t = [c] \<and> is_linebreak c"
    then obtain c where c: "t = [c]" "is_linebreak c" by blast
    with l assms(2) have "\<not> (c = CR \<and> prefix [LF] r)" by simp
    with c l body show ?thesis
      by (simp add: splitlines_keepends_body [OF body] splitlines_keepends_term
          del: splitlines_keepends.simps)
  qed
qed

lemma splitlines_keepends_merge:
  assumes "complete_line l" "last l = CR"
  shows "splitlines_keepends (l @ LF # r) = (l @ [LF]) # splitlines_keepends r"
proof -
  from assms(1) obtain body t where l: "l = body @ t"
    and body: "\<forall>c \<in> set body. \<not> is_linebreak c"
    and t: "t = [CR, LF] \<or> (\<exists>c. t = [c] \<and> is_linebreak c)"
    by (auto simp: complete_line_def)
  from t l assms(2) have "t = [CR]" by auto
  with l body show ?thesis
    by (simp add: splitlines_keepends_body [OF body] splitlines_keepends_CRLF
        del: splitlines_keepends.simps)
qed

lemma splitlines_keepends_bare:
  assumes "bare_line l"
  shows "splitlines_keepends l = [l]"
  using assms splitlines_keepends_body [of l "[]"] by (simp add: bare_line_def)

lemma line_starting_LF:
  assumes "complete_line l \<or> bare_line l" "prefix [LF] l"
  shows "l = [LF]"
proof -
  have lb: "is_linebreak LF" by (simp add: is_linebreak_def)
  from assms(2) obtain r where r: "l = LF # r" by (auto simp: prefix_def)
  with assms(1) lb have "complete_line l" by (auto simp: bare_line_def)
  then obtain body t where l: "l = body @ t"
    and body: "\<forall>c \<in> set body. \<not> is_linebreak c"
    and t: "t = [CR, LF] \<or> (\<exists>c. t = [c] \<and> is_linebreak c)"
    by (auto simp: complete_line_def)
  have "body = []"
  proof (rule ccontr)
    assume "body \<noteq> []"
    with l r have "hd body = LF" by (cases body) auto
    with \<open>body \<noteq> []\<close> body lb show False by (cases body) auto
  qed
  with l r t show ?thesis by auto
qed

lemma takeWhile_append_stop:
  assumes "z \<in> set x" "\<not> P z"
  shows "takeWhile P (x @ y) = takeWhile P x" "dropWhile P (x @ y) = dropWhile P x @ y"
  using assms by (auto intro: takeWhile_append1 dropWhile_append1)

lemma fence_run_append:
  assumes "z \<in> set x" "\<not> is_blank z" "z \<noteq> BACKTICK" "z \<noteq> TILDE"
  shows "fence_run (x @ y) = map_option (\<lambda>(c, n, after). (c, n, after @ y)) (fence_run x)"
proof -
  have tb: "takeWhile is_blank (x @ y) = takeWhile is_blank x"
    and db: "dropWhile is_blank (x @ y) = dropWhile is_blank x @ y"
    using takeWhile_append_stop [of z x is_blank y] assms(1,2) by auto
  from assms(1,2) have zin: "z \<in> set (dropWhile is_blank x)"
    by (metis UnE set_append set_takeWhileD takeWhile_dropWhile_id)
  show ?thesis
  proof (cases "dropWhile is_blank x")
    case Nil
    with zin show ?thesis by simp
  next
    case (Cons c r)
    from Cons db have db': "dropWhile is_blank (x @ y) = c # (r @ y)" by simp
    show ?thesis
    proof (cases "c = BACKTICK \<or> c = TILDE")
      case True
      then have "\<not> (\<lambda>a. a = c) z" using assms(3,4) by auto
      with takeWhile_append_stop [of z "c # r" "\<lambda>a. a = c" y] zin Cons
      have tw: "takeWhile (\<lambda>a. a = c) (c # (r @ y)) = takeWhile (\<lambda>a. a = c) (c # r)"
        and dw: "dropWhile (\<lambda>a. a = c) (c # (r @ y)) = dropWhile (\<lambda>a. a = c) (c # r) @ y"
        by simp_all
      show ?thesis
        by (simp add: fence_run_def Let_def tb db' Cons tw dw
            del: takeWhile.simps dropWhile.simps)
    next
      case False
      then show ?thesis
        by (simp add: fence_run_def Let_def tb db' Cons)
    qed
  qed
qed

lemma fence_open_append:
  assumes "z \<in> set x" "\<not> is_blank z" "z \<noteq> BACKTICK" "z \<noteq> TILDE"
  shows "fence_open (x @ y) = fence_open x"
  using fence_run_append [OF assms, of y]
  by (auto simp: fence_open_def split: option.splits)

lemma fence_open_merge:
  assumes "complete_line l"
  shows "fence_open (l @ y) = fence_open l"
proof -
  from assms obtain body t where l: "l = body @ t"
    and t: "t = [CR, LF] \<or> (\<exists>c. t = [c] \<and> is_linebreak c)"
    by (auto simp: complete_line_def)
  then have "l \<noteq> []" "is_linebreak (last l)"
    by (auto simp: is_linebreak_def)
  then have "last l \<in> set l" "\<not> is_blank (last l)" "last l \<noteq> BACKTICK" "last l \<noteq> TILDE"
    by (auto simp: is_linebreak_def is_blank_def)
  then show ?thesis by (rule fence_open_append)
qed

lemma fence_loop_Cons_cases:
  "(\<exists>st'. fence_loop st (line # rest) = fence_loop st' rest)
   \<or> (st = Outside \<and> fence_open line = None
       \<and> fence_loop st (line # rest) = line # fence_loop Outside rest)"
  by (cases st) (auto split: option.splits)

lemma fence_loop_subset: "set (fence_loop st ls) \<subseteq> set ls"
proof (induction ls arbitrary: st)
  case Nil
  then show ?case by simp
next
  case (Cons line rest)
  from fence_loop_Cons_cases [of st line rest] show ?case
  proof (elim disjE exE conjE)
    fix st'
    assume "fence_loop st (line # rest) = fence_loop st' rest"
    with Cons [of st'] show ?thesis by auto
  next
    assume "fence_loop st (line # rest) = line # fence_loop Outside rest"
    with Cons [of Outside] show ?thesis by auto
  qed
qed

lemma fence_loop_not_open: "l \<in> set (fence_loop st ls) \<Longrightarrow> fence_open l = None"
proof (induction ls arbitrary: st)
  case Nil
  then show ?case by simp
next
  case (Cons line rest)
  from fence_loop_Cons_cases [of st line rest] show ?case
  proof (elim disjE exE conjE)
    fix st'
    assume "fence_loop st (line # rest) = fence_loop st' rest"
    with Cons show ?thesis by auto
  next
    assume "fence_open line = None"
      "fence_loop st (line # rest) = line # fence_loop Outside rest"
    with Cons show ?thesis by auto
  qed
qed

lemma lines_ok_fence_loop: "lines_ok ls \<Longrightarrow> lines_ok (fence_loop st ls)"
proof (induction ls arbitrary: st)
  case Nil
  then show ?case by simp
next
  case (Cons line rest)
  have ok: "lines_ok (fence_loop st' rest)" for st'
    using Cons lines_ok_tl by blast
  from fence_loop_Cons_cases [of st line rest] show ?case
  proof (elim disjE exE conjE)
    fix st'
    assume "fence_loop st (line # rest) = fence_loop st' rest"
    with ok show ?thesis by simp
  next
    assume eq: "fence_loop st (line # rest) = line # fence_loop Outside rest"
    show ?thesis
    proof (cases "fence_loop Outside rest")
      case Nil
      with eq Cons(2) lines_ok_hd [of line rest] show ?thesis by simp
    next
      case (Cons a as)
      then have "rest \<noteq> []" by auto
      with \<open>lines_ok (line # rest)\<close> have "complete_line line" by (rule lines_ok_hd_complete)
      with ok [of Outside] eq show ?thesis by (simp add: lines_ok_Cons_complete)
    qed
  qed
qed

lemma fence_loop_no_open:
  "\<forall>l \<in> set ls. fence_open l = None \<Longrightarrow> fence_loop Outside ls = ls"
  by (induction ls) auto

lemma resplit_no_open:
  assumes "lines_ok ls" "\<forall>l \<in> set ls. fence_open l = None"
  shows "\<forall>l \<in> set (splitlines_keepends (concat ls)). fence_open l = None"
  using assms
proof (induction ls rule: length_induct)
  case (1 ls)
  show ?case
  proof (cases ls)
    case Nil
    then show ?thesis by simp
  next
    case (Cons l rest)
    note ls = Cons
    have hd_ok: "complete_line l \<or> bare_line l"
      using 1(2) ls lines_ok_hd by blast
    have l_no: "fence_open l = None" using 1(3) ls by simp
    have rest_ok: "lines_ok rest" using 1(2) ls lines_ok_tl by blast
    have rest_no: "\<forall>l \<in> set rest. fence_open l = None" using 1(3) ls by simp
    have ih_rest: "\<forall>l \<in> set (splitlines_keepends (concat rest)). fence_open l = None"
    proof -
      have "length rest < length ls" using ls by simp
      with 1(1) rest_ok rest_no show ?thesis by blast
    qed
    show ?thesis
    proof (cases rest)
      case Nil
      from hd_ok show ?thesis
      proof
        assume "complete_line l"
        then have "splitlines_keepends (l @ []) = l # splitlines_keepends []"
          by (rule splitlines_keepends_complete) simp
        with ls Nil l_no show ?thesis by simp
      next
        assume "bare_line l"
        with ls Nil l_no show ?thesis by (simp add: splitlines_keepends_bare)
      qed
    next
      case (Cons l' rest')
      with 1(2) ls have cl: "complete_line l" by simp
      show ?thesis
      proof (cases "last l = CR \<and> prefix [LF] (concat rest)")
        case False
        with cl have "splitlines_keepends (l @ concat rest) = l # splitlines_keepends (concat rest)"
          by (rule splitlines_keepends_complete)
        with ls l_no ih_rest show ?thesis by simp
      next
        case True
        have l'_ok: "complete_line l' \<or> bare_line l'"
          using rest_ok Cons lines_ok_hd by blast
        then have "l' \<noteq> []" using complete_line_nonempty by (auto simp: bare_line_def)
        with True Cons have "prefix [LF] l'"
          by (cases l') (auto simp: prefix_def)
        with l'_ok have l': "l' = [LF]" by (rule line_starting_LF)
        have ok': "lines_ok rest'" using rest_ok Cons lines_ok_tl by blast
        have no': "\<forall>l \<in> set rest'. fence_open l = None" using rest_no Cons by simp
        have ih': "\<forall>l \<in> set (splitlines_keepends (concat rest')). fence_open l = None"
        proof -
          have "length rest' < length ls" using ls Cons by simp
          with 1(1) ok' no' show ?thesis by blast
        qed
        have "splitlines_keepends (l @ LF # concat rest')
            = (l @ [LF]) # splitlines_keepends (concat rest')"
          using cl True by (intro splitlines_keepends_merge) simp_all
        moreover have "fence_open (l @ [LF]) = None"
          using fence_open_merge [OF cl] l_no by simp
        ultimately show ?thesis
          using ls Cons l' ih' by simp
      qed
    qed
  qed
qed

lemma strip_fenced_code_blocks_fixed:
  assumes "\<forall>l \<in> set (splitlines_keepends s). fence_open l = None"
  shows "strip_fenced_code_blocks s = s"
  using assms
  by (simp add: strip_fenced_code_blocks_def fence_loop_no_open concat_splitlines_keepends)

lemmas fence_eval = strip_fenced_code_blocks_def fence_open_def fence_close_def fence_run_def
  is_blank_def is_linebreak_def u_def Let_def

text \<open>
  C5. Fenced-code stripping is idempotent: for every text, \<open>strip_fenced_code_blocks\<close>
  applied twice gives what it gives applied once.
\<close>

theorem strip_fenced_code_blocks_idempotent:
  "strip_fenced_code_blocks (strip_fenced_code_blocks text) = strip_fenced_code_blocks text"
proof -
  let ?kept = "fence_loop Outside (splitlines_keepends text)"
  have "lines_ok ?kept"
    by (simp add: lines_ok_fence_loop lines_ok_splitlines_keepends)
  moreover have "\<forall>l \<in> set ?kept. fence_open l = None"
    by (simp add: fence_loop_not_open)
  ultimately have "\<forall>l \<in> set (splitlines_keepends (concat ?kept)). fence_open l = None"
    by (rule resplit_no_open)
  then have "strip_fenced_code_blocks (concat ?kept) = concat ?kept"
    by (rule strip_fenced_code_blocks_fixed)
  then show ?thesis
    by (simp add: strip_fenced_code_blocks_def)
qed


theorem strip_fenced_code_blocks_idempotent_witness:
  "strip_fenced_code_blocks fenced_example = u ''a'' @ [LF] @ u ''b'' @ [LF]
   \<and> strip_fenced_code_blocks (strip_fenced_code_blocks fenced_example)
       = u ''a'' @ [LF] @ u ''b'' @ [LF]"
proof -
  have "strip_fenced_code_blocks fenced_example = u ''a'' @ [LF] @ u ''b'' @ [LF]"
    by (simp add: fenced_example_def fence_eval)
  with strip_fenced_code_blocks_idempotent [of fenced_example] show ?thesis
    by simp
qed

section \<open>Proofs: the shape of fence lines\<close>

lemma takeWhile_eq_replicate: "takeWhile (\<lambda>x. x = c) xs = replicate (length (takeWhile (\<lambda>x. x = c) xs)) c"
  by (induction xs) auto

lemma takeWhile_replicate_append:
  "takeWhile (\<lambda>x. x = c) (replicate m c @ ys) = replicate m c @ takeWhile (\<lambda>x. x = c) ys"
  by (induction m) auto

lemma dropWhile_replicate_append:
  "dropWhile (\<lambda>x. x = c) (replicate m c @ ys) = dropWhile (\<lambda>x. x = c) ys"
  by (induction m) auto

lemma fence_run_SomeD:
  assumes "fence_run l = Some (c, n, after)"
  shows "\<exists>ws. l = ws @ replicate n c @ after \<and> (\<forall>x \<in> set ws. is_blank x) \<and> length ws \<le> 3
        \<and> (c = BACKTICK \<or> c = TILDE) \<and> 3 \<le> n \<and> \<not> prefix [c] after"
proof -
  let ?ws = "takeWhile is_blank l" and ?rest = "dropWhile is_blank l"
  from assms obtain r where rest: "?rest = c # r"
    and len: "length ?ws \<le> 3" and c: "c = BACKTICK \<or> c = TILDE"
    and n: "n = length (takeWhile (\<lambda>x. x = c) ?rest)" "3 \<le> n"
    and after: "after = dropWhile (\<lambda>x. x = c) ?rest"
    by (auto simp: fence_run_def Let_def split: list.splits if_splits)
  have "?rest = replicate n c @ after"
    using n(1) after takeWhile_eq_replicate [of c ?rest]
    by (metis takeWhile_dropWhile_id)
  then have "l = ?ws @ replicate n c @ after"
    by (metis takeWhile_dropWhile_id)
  moreover have "\<forall>x \<in> set ?ws. is_blank x"
    by (auto dest: set_takeWhileD)
  moreover have "\<not> prefix [c] after"
    unfolding after by (metis (mono_tags, lifting) dropWhile_eq_Cons_conv prefix_Cons prefix_order.dual_order.refl
        append_Cons prefixE)
  ultimately show ?thesis using len c n(2) by blast
qed

lemma fence_run_SomeI:
  assumes "\<forall>x \<in> set ws. is_blank x" "length ws \<le> 3" "c = BACKTICK \<or> c = TILDE" "3 \<le> n"
    "\<not> prefix [c] after"
  shows "fence_run (ws @ replicate n c @ after) = Some (c, n, after)"
proof -
  from assms(4) obtain m where n: "n = Suc m" by (cases n) auto
  have nb: "\<not> is_blank c" using assms(3) by (auto simp: is_blank_def)
  have tw: "takeWhile is_blank (ws @ replicate n c @ after) = ws"
    using assms(1) nb n by (simp add: takeWhile_append2)
  have dw: "dropWhile is_blank (ws @ replicate n c @ after) = c # (replicate m c @ after)"
    using assms(1) nb n by (simp add: dropWhile_append2)
  have na: "takeWhile (\<lambda>x. x = c) after = []" "dropWhile (\<lambda>x. x = c) after = after"
    using assms(5) by (cases after; auto)+
  have tw2: "takeWhile (\<lambda>x. x = c) (c # (replicate m c @ after)) = replicate n c"
    using n na by (simp add: takeWhile_replicate_append)
  have dw2: "dropWhile (\<lambda>x. x = c) (c # (replicate m c @ after)) = after"
    using n na by (simp add: dropWhile_replicate_append)
  show ?thesis
    using assms(2,3,4)
    by (simp add: fence_run_def Let_def tw dw tw2 dw2 del: takeWhile.simps dropWhile.simps)
qed

lemma fence_open_iff: "fence_open l = Some (c, n) \<longleftrightarrow> opening_fence_line c n l"
proof
  assume "fence_open l = Some (c, n)"
  then obtain after where "fence_run l = Some (c, n, after)"
    by (auto simp: fence_open_def split: option.splits)
  from fence_run_SomeD [OF this] show "opening_fence_line c n l"
    unfolding opening_fence_line_def by blast
next
  assume "opening_fence_line c n l"
  then obtain ws after where "l = ws @ replicate n c @ after" "\<forall>x \<in> set ws. is_blank x"
    "length ws \<le> 3" "c = BACKTICK \<or> c = TILDE" "3 \<le> n" "\<not> prefix [c] after"
    unfolding opening_fence_line_def by blast
  then show "fence_open l = Some (c, n)"
    by (simp add: fence_open_def fence_run_SomeI)
qed

lemma fence_close_iff: "fence_close l = Some (c, n) \<longleftrightarrow> closing_fence_line c n l"
proof
  assume a: "fence_close l = Some (c, n)"
  then obtain after where run: "fence_run l = Some (c, n, after)"
    and e: "dropWhile is_blank after = [] \<or> dropWhile is_blank after = [LF]"
    by (auto simp: fence_close_def split: option.splits if_splits)
  from fence_run_SomeD [OF run] obtain ws where
    l: "l = ws @ replicate n c @ after" and ws: "\<forall>x \<in> set ws. is_blank x" "length ws \<le> 3"
    and c: "c = BACKTICK \<or> c = TILDE" "3 \<le> n"
    by blast
  have "after = takeWhile is_blank after @ dropWhile is_blank after" by simp
  with l have "l = ws @ replicate n c @ takeWhile is_blank after @ dropWhile is_blank after"
    by simp
  moreover have "\<forall>x \<in> set (takeWhile is_blank after). is_blank x"
    by (auto dest: set_takeWhileD)
  ultimately show "closing_fence_line c n l"
    unfolding closing_fence_line_def using ws c e by blast
next
  assume "closing_fence_line c n l"
  then obtain ws ws' e where l: "l = ws @ replicate n c @ ws' @ e"
    and ws: "\<forall>x \<in> set ws. is_blank x" "length ws \<le> 3"
    and c: "c = BACKTICK \<or> c = TILDE" "3 \<le> n"
    and ws': "\<forall>x \<in> set ws'. is_blank x" and e: "e = [] \<or> e = [LF]"
    unfolding closing_fence_line_def by blast
  have "\<not> prefix [c] (ws' @ e)"
  proof (cases ws')
    case Nil
    with e c show ?thesis by auto
  next
    case (Cons a as)
    with ws' have "is_blank a" by simp
    with c have "a \<noteq> c" by (auto simp: is_blank_def)
    with Cons show ?thesis by simp
  qed
  with ws c have run: "fence_run l = Some (c, n, ws' @ e)"
    unfolding l by (intro fence_run_SomeI) 
  have "dropWhile is_blank (ws' @ e) = e"
    using ws' e by (auto simp: dropWhile_append2 is_blank_def)
  with run e show "fence_close l = Some (c, n)"
    by (auto simp: fence_close_def)
qed

section \<open>Proofs: fence length matching\<close>

lemma fence_loop_append:
  "fence_loop st (xs @ ys) = fence_loop st xs @ fence_loop (fence_after st xs) ys"
proof (induction xs arbitrary: st)
  case Nil
  then show ?case by simp
next
  case (Cons line rest)
  show ?case
  proof (cases st)
    case Outside
    with Cons show ?thesis by (auto split: option.splits)
  next
    case (Inside c n)
    with Cons show ?thesis by (auto split: option.splits)
  qed
qed

lemma inside4_step:
  "fence_after (Inside BACKTICK 4) [l] = (if closes4 l then Outside else Inside BACKTICK 4)"
  "fence_loop (Inside BACKTICK 4) (l # ls)
     = fence_loop (if closes4 l then Outside else Inside BACKTICK 4) ls"
proof -
  have "closes4 l \<longleftrightarrow> (\<exists>n. 4 \<le> n \<and> fence_close l = Some (BACKTICK, n))"
    by (simp add: closes4_def fence_close_iff)
  then show "fence_after (Inside BACKTICK 4) [l] = (if closes4 l then Outside else Inside BACKTICK 4)"
    "fence_loop (Inside BACKTICK 4) (l # ls)
     = fence_loop (if closes4 l then Outside else Inside BACKTICK 4) ls"
    by (auto split: option.splits)
qed

lemma inside4_body:
  assumes "\<forall>l \<in> set body. \<not> closes4 l"
  shows "fence_loop (Inside BACKTICK 4) (body @ ls) = fence_loop (Inside BACKTICK 4) ls"
  using assms by (induction body) (simp_all add: inside4_step(2) del: fence_loop.simps)

lemma three_backticks_not_closes4:
  assumes "closing_fence_line BACKTICK 3 l"
  shows "\<not> closes4 l"
proof
  assume "closes4 l"
  then obtain n where "4 \<le> n" "closing_fence_line BACKTICK n l"
    by (auto simp: closes4_def)
  then have "fence_close l = Some (BACKTICK, n)" by (simp add: fence_close_iff)
  moreover from assms have "fence_close l = Some (BACKTICK, 3)" by (simp add: fence_close_iff)
  ultimately show False using \<open>4 \<le> n\<close> by simp
qed

lemma closes4_code:
  "closes4 l \<longleftrightarrow> (case fence_close l of Some (c, n) \<Rightarrow> c = BACKTICK \<and> 4 \<le> n | None \<Rightarrow> False)"
  by (auto simp: closes4_def fence_close_iff [symmetric] split: option.splits)

text \<open>
  C6. When a fence is opened by a line of four backticks, a later line of exactly three
  backticks does not close it: the loop stays inside the fence and drops the line. The
  fence closes only at a line that is a run of at least four backticks alone (after at
  most three blanks, with only blanks behind it). All lines from the opener up to and
  including that closer, or up to the end of the text when there is no closer, are left
  out of the result of \<open>strip_fenced_code_blocks\<close>.
\<close>

theorem fence_of_four_backticks:
  "(closing_fence_line BACKTICK 3 l
      \<longrightarrow> fence_after (Inside BACKTICK 4) [l] = Inside BACKTICK 4
          \<and> fence_loop (Inside BACKTICK 4) (l # ls) = fence_loop (Inside BACKTICK 4) ls)
   \<and> (fence_after (Inside BACKTICK 4) [l] = Outside
        \<longleftrightarrow> (\<exists>n. 4 \<le> n \<and> closing_fence_line BACKTICK n l))
   \<and> (splitlines_keepends doc = pre @ opener # body @ closer # rest
        \<and> fence_after Outside pre = Outside \<and> opening_fence_line BACKTICK 4 opener
        \<and> (\<forall>b \<in> set body. \<not> closes4 b) \<and> closes4 closer
      \<longrightarrow> strip_fenced_code_blocks doc
            = concat (fence_loop Outside pre) @ concat (fence_loop Outside rest))
   \<and> (splitlines_keepends doc = pre @ opener # body
        \<and> fence_after Outside pre = Outside \<and> opening_fence_line BACKTICK 4 opener
        \<and> (\<forall>b \<in> set body. \<not> closes4 b)
      \<longrightarrow> strip_fenced_code_blocks doc = concat (fence_loop Outside pre))"
proof -
  have A: "fence_after (Inside BACKTICK 4) [l] = Inside BACKTICK 4
          \<and> fence_loop (Inside BACKTICK 4) (l # ls) = fence_loop (Inside BACKTICK 4) ls"
    if "closing_fence_line BACKTICK 3 l"
    using three_backticks_not_closes4 [OF that]
    by (simp add: inside4_step del: fence_loop.simps fence_after.simps)
  have B: "fence_after (Inside BACKTICK 4) [l] = Outside
        \<longleftrightarrow> (\<exists>n. 4 \<le> n \<and> closing_fence_line BACKTICK n l)"
    by (simp add: inside4_step(1) closes4_def del: fence_after.simps)
  have open4: "fence_loop Outside (pre @ opener # tail)
      = fence_loop Outside pre @ fence_loop (Inside BACKTICK 4) tail"
    if "fence_after Outside pre = Outside" "opening_fence_line BACKTICK 4 opener" for tail
  proof -
    from that(2) have "fence_open opener = Some (BACKTICK, 4)" by (simp add: fence_open_iff)
    with that(1) show ?thesis by (simp add: fence_loop_append)
  qed
  have C: "strip_fenced_code_blocks doc
            = concat (fence_loop Outside pre) @ concat (fence_loop Outside rest)"
    if "splitlines_keepends doc = pre @ opener # body @ closer # rest
        \<and> fence_after Outside pre = Outside \<and> opening_fence_line BACKTICK 4 opener
        \<and> (\<forall>b \<in> set body. \<not> closes4 b) \<and> closes4 closer"
  proof -
    from that have "fence_loop (Inside BACKTICK 4) (body @ closer # rest) = fence_loop Outside rest"
      by (simp add: inside4_body inside4_step(2) del: fence_loop.simps)
    with that open4 [of "body @ closer # rest"] show ?thesis
      by (simp add: strip_fenced_code_blocks_def)
  qed
  have D: "strip_fenced_code_blocks doc = concat (fence_loop Outside pre)"
    if "splitlines_keepends doc = pre @ opener # body
        \<and> fence_after Outside pre = Outside \<and> opening_fence_line BACKTICK 4 opener
        \<and> (\<forall>b \<in> set body. \<not> closes4 b)"
  proof -
    from that inside4_body [of body "[]"] have "fence_loop (Inside BACKTICK 4) body = []"
      by simp
    with that open4 [of body] show ?thesis
      by (simp add: strip_fenced_code_blocks_def)
  qed
  from A B C D show ?thesis by blast
qed


theorem fence_of_four_backticks_witness:
  "closing_fence_line BACKTICK 3 (u ''```'' @ [LF])
   \<and> fence_after (Inside BACKTICK 4) [u ''```'' @ [LF]] = Inside BACKTICK 4
   \<and> fence_after (Inside BACKTICK 4) [u ''````'' @ [LF]] = Outside
   \<and> strip_fenced_code_blocks four_example = u ''a'' @ [LF] @ u ''b'' @ [LF]
   \<and> strip_fenced_code_blocks four_unclosed = u ''a'' @ [LF]"
proof -
  let ?pre = "[u ''a'' @ [LF]]" and ?opener = "u ''````'' @ [LF]"
  let ?body = "[u ''x'' @ [LF], u ''```'' @ [LF], u ''y'' @ [LF]]"
  let ?rest = "[u ''b'' @ [LF]]"
  have three: "closing_fence_line BACKTICK 3 (u ''```'' @ [LF])"
    by (simp add: fence_close_iff [symmetric] fence_eval)
  have four: "closing_fence_line BACKTICK 4 ?opener"
    by (simp add: fence_close_iff [symmetric] fence_eval)
  have s1: "splitlines_keepends four_example = ?pre @ ?opener # ?body @ ?opener # ?rest"
    by (simp add: four_example_def four_unclosed_def fence_eval)
  have s2: "splitlines_keepends four_unclosed = ?pre @ ?opener # ?body"
    by (simp add: four_unclosed_def fence_eval)
  have pre: "fence_after Outside ?pre = Outside" "fence_loop Outside ?pre = ?pre"
    by (simp_all add: fence_eval)
  have rest: "fence_loop Outside ?rest = ?rest"
    by (simp add: fence_eval)
  have opn: "opening_fence_line BACKTICK 4 ?opener"
    by (simp add: fence_open_iff [symmetric] fence_eval)
  have body: "\<forall>b \<in> set ?body. \<not> closes4 b"
    by (simp add: closes4_code fence_eval)
  have cl: "closes4 ?opener"
    by (simp add: closes4_code fence_eval)
  note inst = fence_of_four_backticks [where pre = "?pre" and opener = "?opener" and body = "?body"]
  from inst [where l = "u ''```'' @ [LF]" and ls = "[]" and doc = "[]" and closer = "[]"
      and rest = "[]"] three
  have 1: "fence_after (Inside BACKTICK 4) [u ''```'' @ [LF]] = Inside BACKTICK 4"
    by blast
  from inst [where l = "?opener" and ls = "[]" and doc = "[]" and closer = "[]" and rest = "[]"]
    four
  have 2: "fence_after (Inside BACKTICK 4) [?opener] = Outside"
    by blast
  from inst [where l = "[]" and ls = "[]" and doc = four_example and closer = "?opener"
      and rest = "?rest"] s1 pre(1) opn body cl
  have "strip_fenced_code_blocks four_example
      = concat (fence_loop Outside ?pre) @ concat (fence_loop Outside ?rest)"
    by blast
  then have 3: "strip_fenced_code_blocks four_example = u ''a'' @ [LF] @ u ''b'' @ [LF]"
    by (simp only: pre(2) rest) simp
  from inst [where l = "[]" and ls = "[]" and doc = four_unclosed and closer = "[]"
      and rest = "[]"] s2 pre(1) opn body
  have "strip_fenced_code_blocks four_unclosed = concat (fence_loop Outside ?pre)"
    by blast
  then have 4: "strip_fenced_code_blocks four_unclosed = u ''a'' @ [LF]"
    by (simp only: pre(2)) simp
  from three 1 2 3 4 show ?thesis by blast
qed

section \<open>Proofs: the pipeline on plain text\<close>

lemma py_find_None_iff: "py_find sub s = None \<longleftrightarrow> \<not> sublist sub s"
  by (induction s) (auto simp: sublist_Cons_right)

lemma mask_no_backtick:
  "BACKTICK \<notin> set s \<Longrightarrow> mask_inline_code_spans s = s"
proof (induction s rule: length_induct)
  case (1 s)
  show ?case
  proof (cases s)
    case Nil
    then show ?thesis by simp
  next
    case (Cons c cs)
    have c: "c \<noteq> BACKTICK" using 1(2) Cons by auto
    have ih_cs: "mask_inline_code_spans cs = cs"
      using 1 Cons by auto
    show ?thesis
    proof (cases "c = BACKSLASH")
      case True
      let ?rest = "dropWhile (\<lambda>x. x = BACKSLASH) (c # cs)"
      have sub: "set ?rest \<subseteq> set s"
        using Cons by (metis set_dropWhileD subsetI)
      with 1(2) have nb: "BACKTICK \<notin> set ?rest" by blast
      then have np: "\<not> prefix [BACKTICK] ?rest"
        by (cases ?rest) auto
      have "length ?rest \<le> length cs"
        using True by (simp add: length_dropWhile_le)
      then have "length ?rest < length s" using Cons by simp
      with 1(1) nb have "mask_inline_code_spans ?rest = ?rest" by blast
      with True np have "mask_inline_code_spans (c # cs)
          = takeWhile (\<lambda>x. x = BACKSLASH) (c # cs) @ ?rest"
        by (simp add: Let_def del: takeWhile.simps dropWhile.simps)
      with Cons show ?thesis by (simp del: takeWhile.simps dropWhile.simps mask_inline_code_spans.simps)
    next
      case False
      with c ih_cs Cons show ?thesis by simp
    qed
  qed
qed

lemma comment_at_None: "\<not> prefix (u ''<!--'') m \<Longrightarrow> comment_at m = None"
  by (simp add: comment_at_def)

lemma sublist_tl: "sublist p (tl m) \<Longrightarrow> sublist p m"
  by (cases m) (auto simp: sublist_Cons_right)

lemma splice_no_opener:
  "\<not> sublist (u ''<!--'') m \<Longrightarrow> splice_comments t m = t"
proof (induction t arbitrary: m)
  case Nil
  then show ?case by simp
next
  case (Cons c cs)
  from Cons(2) have "\<not> prefix (u ''<!--'') m"
    by (auto simp: prefix_def sublist_def)
  then have "comment_at m = None" by (rule comment_at_None)
  moreover from Cons(2) have "\<not> sublist (u ''<!--'') (tl m)"
    using sublist_tl by blast
  ultimately show ?case using Cons(1) by simp
qed

lemma strip_html_comment_blocks_plain:
  assumes "BACKTICK \<notin> set t" "\<not> sublist (u ''<!--'') t"
  shows "strip_html_comment_blocks t = t"
  using assms
  by (simp add: strip_html_comment_blocks_def Let_def mask_no_backtick splice_no_opener
      py_find_None_iff [THEN iffD2])

lemma strip_indented_code_blocks_fixed:
  assumes "\<forall>l \<in> set (splitlines_keepends t). \<not> indented_code l"
  shows "strip_indented_code_blocks t = t"
proof -
  from assms have "filter (\<lambda>line. \<not> indented_code line) (splitlines_keepends t)
      = splitlines_keepends t"
    by (simp add: filter_id_conv)
  then show ?thesis
    by (simp add: strip_indented_code_blocks_def concat_splitlines_keepends)
qed

lemma line_in_text: "l \<in> set (splitlines_keepends t) \<Longrightarrow> set l \<subseteq> set t"
proof -
  assume "l \<in> set (splitlines_keepends t)"
  then have "set l \<subseteq> set (concat (splitlines_keepends t))" by auto
  then show ?thesis by (simp add: concat_splitlines_keepends)
qed

lemmas sanitize_eval = sanitize_status_text_def strip_indented_code_blocks_def indented_code_def
  strip_html_comment_blocks_def comment_at_def

text \<open>
  C4, as amended. For every text that contains no backtick and no \<open><!--\<close>, and in which no
  line starts with a tab or four spaces and no line opens a fence of tildes (at most
  three blanks, then three tildes or more), the full pipeline \<open>sanitize_status_text\<close>
  (fenced-code stripping, indented-code stripping, HTML-comment stripping) returns the
  text unchanged.
\<close>

theorem sanitize_status_text_identity:
  assumes "BACKTICK \<notin> set t" "\<not> sublist (u ''<!--'') t"
    and "\<forall>l \<in> set (splitlines_keepends t). \<not> indented_code l \<and> (\<forall>n. \<not> opening_fence_line TILDE n l)"
  shows "sanitize_status_text t = t"
proof -
  have "fence_open l = None" if l: "l \<in> set (splitlines_keepends t)" for l
  proof (rule ccontr)
    assume "fence_open l \<noteq> None"
    then obtain c n where cn: "fence_open l = Some (c, n)" by auto
    then have o: "opening_fence_line c n l" by (simp add: fence_open_iff)
    then obtain ws after where "l = ws @ replicate n c @ after" "c = BACKTICK \<or> c = TILDE" "3 \<le> n"
      unfolding opening_fence_line_def by blast
    then have "c \<in> set l" by auto
    with line_in_text [OF l] have "c \<in> set t" by blast
    with assms(1) \<open>c = BACKTICK \<or> c = TILDE\<close> have "c = TILDE" by auto
    with o assms(3) l show False by blast
  qed
  then have "strip_fenced_code_blocks t = t"
    by (intro strip_fenced_code_blocks_fixed) simp
  moreover have "strip_indented_code_blocks t = t"
    using assms(3) by (intro strip_indented_code_blocks_fixed) simp
  moreover have "strip_html_comment_blocks t = t"
    using assms(1,2) by (rule strip_html_comment_blocks_plain)
  ultimately show ?thesis
    by (simp add: sanitize_status_text_def)
qed

text \<open>
  C4 as stated fails: an indented line, and the lines of a tilde fence, hold no backtick
  and no \<open><!--\<close>, and the pipeline removes them.
\<close>

theorem sanitize_status_text_identity_counterexample:
  "BACKTICK \<notin> set indented_text \<and> \<not> sublist (u ''<!--'') indented_text
   \<and> sanitize_status_text indented_text = []
   \<and> sanitize_status_text indented_text \<noteq> indented_text
   \<and> BACKTICK \<notin> set tilde_text \<and> \<not> sublist (u ''<!--'') tilde_text
   \<and> sanitize_status_text tilde_text = []
   \<and> sanitize_status_text tilde_text \<noteq> tilde_text"
  by (simp add: indented_text_def tilde_text_def sanitize_eval fence_eval
      py_find_None_iff [symmetric])

theorem sanitize_status_text_identity_witness:
  "BACKTICK \<notin> set plain_text \<and> \<not> sublist (u ''<!--'') plain_text
   \<and> sanitize_status_text plain_text = plain_text"
proof -
  have 1: "BACKTICK \<notin> set plain_text"
    by (simp add: plain_text_def u_def)
  have 2: "\<not> sublist (u ''<!--'') plain_text"
    by (simp add: plain_text_def u_def py_find_None_iff [symmetric])
  have "opening_fence_line TILDE n l \<longleftrightarrow> fence_open l = Some (TILDE, n)" for n l
    by (simp add: fence_open_iff)
  then have 3: "\<forall>l \<in> set (splitlines_keepends plain_text).
      \<not> indented_code l \<and> (\<forall>n. \<not> opening_fence_line TILDE n l)"
    by (simp add: plain_text_def sanitize_eval fence_eval)
  from sanitize_status_text_identity [OF 1 2 3] 1 2 show ?thesis by simp
qed

section \<open>Proofs: masking and comment stripping\<close>

lemma closer_end_le: "closer_end n s = Some k \<Longrightarrow> k \<le> length s"
proof (induction s arbitrary: k rule: length_induct)
  case (1 s)
  show ?case
  proof (cases s)
    case Nil
    with 1(2) show ?thesis by simp
  next
    case (Cons c cs)
    show ?thesis
    proof (cases "c = BACKTICK")
      case False
      with 1(2) Cons obtain j where j: "closer_end n cs = Some j" "k = Suc j"
        by auto
      with 1(1) Cons have "j \<le> length cs" by auto
      with j Cons show ?thesis by simp
    next
      case True
      let ?run = "takeWhile (\<lambda>x. x = BACKTICK) (c # cs)"
      let ?rest = "dropWhile (\<lambda>x. x = BACKTICK) (c # cs)"
      have len: "length ?run + length ?rest = length s"
        using Cons by (metis length_append takeWhile_dropWhile_id)
      show ?thesis
      proof (cases "length ?run = n")
        case True
        with 1(2) Cons \<open>c = BACKTICK\<close> have "k = length ?run"
          by (simp add: Let_def del: takeWhile.simps dropWhile.simps)
        with len show ?thesis by simp
      next
        case False
        with 1(2) Cons \<open>c = BACKTICK\<close> obtain j where
          j: "closer_end n ?rest = Some j" "k = length ?run + j"
          by (auto simp: Let_def simp del: takeWhile.simps dropWhile.simps)
        have "length ?rest < length s"
          using len True by simp
        with 1(1) j(1) have "j \<le> length ?rest" by blast
        with j(2) len show ?thesis by simp
      qed
    qed
  qed
qed

lemma masked_of_refl: "masked_of s s"
  by (simp add: masked_of_def list_all2_refl)

lemma masked_of_append: "masked_of a a' \<Longrightarrow> masked_of b b' \<Longrightarrow> masked_of (a @ b) (a' @ b')"
  by (simp add: masked_of_def list_all2_appendI)

lemma masked_of_spaces: "length a = n \<Longrightarrow> masked_of a (replicate n SPACE)"
  by (auto simp: masked_of_def list_all2_conv_all_nth)

lemma masked_of_mask: "masked_of s (mask_inline_code_spans s)"
proof (induction s rule: length_induct)
  case (1 s)
  show ?case
  proof (cases s)
    case Nil
    then show ?thesis by (simp add: masked_of_def)
  next
    case (Cons c cs)
    have ih: "masked_of r (mask_inline_code_spans r)" if "length r \<le> length cs" for r
      using 1 Cons that by auto
    show ?thesis
    proof (cases "c = BACKSLASH")
      case True
      let ?bs = "takeWhile (\<lambda>x. x = BACKSLASH) (c # cs)"
      let ?rest = "dropWhile (\<lambda>x. x = BACKSLASH) (c # cs)"
      have s: "s = ?bs @ ?rest" using Cons by simp
      have len: "length ?rest \<le> length cs"
        using True by (simp add: length_dropWhile_le)
      show ?thesis
      proof (cases "prefix [BACKTICK] ?rest \<and> length ?bs mod 2 = 1")
        case esc: True
        then obtain r where r: "?rest = BACKTICK # r" by (auto simp: prefix_def)
        with len have "length r \<le> length cs" by simp
        then have "masked_of r (mask_inline_code_spans r)" by (rule ih)
        then have "masked_of (?bs @ BACKTICK # r) (?bs @ BACKTICK # mask_inline_code_spans r)"
          using masked_of_append [OF masked_of_refl [of "?bs @ [BACKTICK]"], of r "mask_inline_code_spans r"]
          by simp
        moreover have "mask_inline_code_spans s = ?bs @ BACKTICK # mask_inline_code_spans r"
          using Cons True esc r by (simp add: Let_def del: takeWhile.simps dropWhile.simps)
        ultimately show ?thesis using s r by simp
      next
        case False
        have "masked_of (?bs @ ?rest) (?bs @ mask_inline_code_spans ?rest)"
          using masked_of_append [OF masked_of_refl ih [OF len]] .
        moreover have "mask_inline_code_spans (c # cs)
            = (if prefix [BACKTICK] ?rest \<and> length ?bs mod 2 = 1
               then ?bs @ BACKTICK # mask_inline_code_spans (tl ?rest)
               else ?bs @ mask_inline_code_spans ?rest)"
          by (subst mask_inline_code_spans.simps(2)) (simp only: Let_def True simp_thms if_True)
        then have "mask_inline_code_spans s = ?bs @ mask_inline_code_spans ?rest"
          using Cons by (simp only: if_not_P [OF False])
        ultimately show ?thesis using s by simp
      qed
    next
      case nbs: False
      show ?thesis
      proof (cases "c = BACKTICK")
        case False
        with nbs Cons ih [of cs] show ?thesis
          by (simp add: masked_of_def)
      next
        case True
        let ?op = "takeWhile (\<lambda>x. x = BACKTICK) (c # cs)"
        let ?rest = "dropWhile (\<lambda>x. x = BACKTICK) (c # cs)"
        have s: "s = ?op @ ?rest" using Cons by simp
        have len: "length ?rest \<le> length cs"
          using True by (simp add: length_dropWhile_le)
        show ?thesis
        proof (cases "closer_end (length ?op) ?rest")
          case None
          have "masked_of (?op @ ?rest) (?op @ mask_inline_code_spans ?rest)"
            using masked_of_append [OF masked_of_refl ih [OF len]] .
          moreover have "mask_inline_code_spans s = ?op @ mask_inline_code_spans ?rest"
            using Cons True None by (simp add: Let_def del: takeWhile.simps dropWhile.simps)
          ultimately show ?thesis using s by simp
        next
          case (Some k)
          then have k: "k \<le> length ?rest" by (rule closer_end_le)
          have "length (drop k ?rest) \<le> length cs" using len by simp
          then have "masked_of (drop k ?rest) (mask_inline_code_spans (drop k ?rest))"
            by (rule ih)
          moreover have "masked_of (?op @ take k ?rest) (replicate (length ?op + k) SPACE)"
            using k by (intro masked_of_spaces) simp
          ultimately have "masked_of ((?op @ take k ?rest) @ drop k ?rest)
              (replicate (length ?op + k) SPACE @ mask_inline_code_spans (drop k ?rest))"
            by (rule masked_of_append [rotated])
          moreover have "mask_inline_code_spans s
              = replicate (length ?op + k) SPACE @ mask_inline_code_spans (drop k ?rest)"
            using Cons True Some by (simp add: Let_def del: takeWhile.simps dropWhile.simps)
          ultimately show ?thesis using s by simp
        qed
      qed
    qed
  qed
qed

lemma masked_of_closer:
  assumes "masked_of x x'" "sublist (u ''-->'') x'"
  shows "sublist (u ''-->'') x"
proof -
  from assms(2) obtain a' b' where "x' = a' @ u ''-->'' @ b'"
    by (auto simp: sublist_def)
  with assms(1) obtain a p b where x: "x = a @ p @ b"
    and p: "list_all2 (\<lambda>a b. b = a \<or> b = SPACE) p (u ''-->'')"
    unfolding masked_of_def by (auto simp: list_all2_append2)
  from p have "p = u ''-->''"
    by (auto simp: u_def list_all2_Cons2)
  with x show ?thesis by (auto simp: sublist_def)
qed

lemma mask_keeps_no_closer:
  "\<not> sublist (u ''-->'') x \<Longrightarrow> \<not> sublist (u ''-->'') (mask_inline_code_spans x)"
  using masked_of_closer [OF masked_of_mask] by blast

lemma sublist_drop: "sublist p (drop n m) \<Longrightarrow> sublist p m"
  by (metis append_take_drop_id sublist_append)

lemma splice_no_closer:
  "\<not> sublist (u ''-->'') m \<Longrightarrow> splice_comments t m = t"
proof (induction t arbitrary: m)
  case Nil
  then show ?case by simp
next
  case (Cons c cs)
  have "py_find (u ''-->'') (drop 4 m) = None"
    using Cons(2) sublist_drop by (auto simp: py_find_None_iff)
  then have "comment_at m = None" by (simp add: comment_at_def)
  moreover from Cons(2) have "\<not> sublist (u ''-->'') (tl m)"
    using sublist_tl by blast
  ultimately show ?case using Cons(1) by simp
qed

lemma mask_escaped_opener:
  "mask_inline_code_spans (BACKSLASH # BACKTICK # u ''<!--'' @ x)
     = BACKSLASH # BACKTICK # u ''<!--'' @ mask_inline_code_spans x"
  by (simp add: u_def Let_def)

lemma strip_html_escaped_opener:
  assumes "\<not> sublist (u ''-->'') x"
  shows "strip_html_comment_blocks (BACKSLASH # BACKTICK # u ''<!--'' @ x) = [BACKSLASH, BACKTICK]"
proof -
  let ?m = "mask_inline_code_spans x"
  let ?t = "BACKSLASH # BACKTICK # u ''<!--'' @ x"
  have nc: "\<not> sublist (u ''-->'') ?m" using assms by (rule mask_keeps_no_closer)
  then have f: "py_find (u ''-->'') ?m = None" by (simp add: py_find_None_iff)
  have sp: "splice_comments x ?m = x" using nc by (rule splice_no_closer)
  have sp2: "splice_comments ?t (BACKSLASH # BACKTICK # u ''<!--'' @ ?m) = ?t"
    using f sp by (simp add: u_def comment_at_def)
  have fi: "py_find (u ''<!--'') (BACKSLASH # BACKTICK # u ''<!--'' @ ?m) = Some 2"
    by (simp add: u_def)
  have "strip_html_comment_blocks ?t = take 2 ?t"
    by (simp only: strip_html_comment_blocks_def Let_def mask_escaped_opener sp2 fi option.case)
  then show ?thesis by simp
qed


end
